theory Spec2Isabelle
  imports Main
begin

section \<open>Memory, element types and outcomes\<close>

text \<open>
  The container \<^verbatim>\<open>mpc::small_vector<T, N>\<close> of \<^verbatim>\<open>src/small_vector.h\<close> keeps three
  header fields (\<^verbatim>\<open>m_size\<close>, \<^verbatim>\<open>m_capacity\<close>, \<^verbatim>\<open>m_data\<close>) and an inline array
  \<^verbatim>\<open>m_buffer[N]\<close> of raw storage. \<^verbatim>\<open>m_data\<close> is a raw pointer that is compared with and
  copied between objects, so storage is modelled by an explicit store: a pointer names a
  region, either the inline buffer of the object at some address or a block handed out by
  \<^verbatim>\<open>::operator new\<close>, and the store maps each region that is alive to its slots.
  A slot is \<open>None\<close> while it is raw storage and \<open>Some x\<close> while it holds a live object.
\<close>

datatype pointer = Inline nat | Block nat

type_synonym 'a slot = "'a option"

record 'a memory =
  regions :: "pointer \<Rightarrow> 'a slot list option"
  next_block :: nat
  deleted :: "pointer list"

text \<open>
  An operation returns, leaves by an exception, or has undefined behaviour (a read or a
  destructor call on raw storage, an access outside a region, a delete of something that is
  not a live heap block).
\<close>

datatype ('r, 'e) outcome = Returns 'r | Throws 'e | Undefined

text \<open>
  The template parameter \<^verbatim>\<open>T\<close>: its size in bytes, which values make its copy and its
  move constructor throw, and the traits \<^verbatim>\<open>std::is_nothrow_move_constructible\<close> and
  \<^verbatim>\<open>std::is_copy_constructible\<close>. A constructor that does not throw yields an object equal
  to its argument. The copy constructor is only called on types that have one.
\<close>

record 'a value_type =
  sizeof :: nat
  copy_throws :: "'a \<Rightarrow> bool"
  move_throws :: "'a \<Rightarrow> bool"
  is_nothrow_move_constructible :: bool
  is_copy_constructible :: bool

definition copy_construct :: "'a value_type \<Rightarrow> 'a \<Rightarrow> 'a option" where
  "copy_construct T x = (if copy_throws T x then None else Some x)"

definition move_construct :: "'a value_type \<Rightarrow> 'a \<Rightarrow> 'a option" where
  "move_construct T x = (if move_throws T x then None else Some x)"

text \<open>
  \<^verbatim>\<open>value_type(std::move_if_noexcept(x))\<close>: \<^verbatim>\<open>std::move_if_noexcept\<close> yields a const
  lvalue reference, so that the copy constructor runs, when the move constructor may throw
  and the type is copy constructible; otherwise it yields an rvalue and the move
  constructor runs, also one that may throw on a type that cannot be copied.
\<close>

definition move_if_noexcept_construct :: "'a value_type \<Rightarrow> 'a \<Rightarrow> 'a option" where
  "move_if_noexcept_construct T x =
     (if \<not> is_nothrow_move_constructible T \<and> is_copy_constructible T
      then copy_construct T x else move_construct T x)"

text \<open>\<^verbatim>\<open>size_type\<close> is a 64-bit unsigned integer: a product of two sizes wraps.\<close>

definition size_mul :: "nat \<Rightarrow> nat \<Rightarrow> nat" where
  "size_mul a b = (a * b) mod 2 ^ 64"

text \<open>\<^verbatim>\<open>::operator new(bytes)\<close> hands out a fresh block; seen as storage for \<^verbatim>\<open>T\<close> it has
  \<open>bytes div sizeof T\<close> raw slots. Allocation failure is not modelled.\<close>

definition operator_new :: "'a value_type \<Rightarrow> nat \<Rightarrow> 'a memory \<Rightarrow> pointer \<times> 'a memory" where
  "operator_new T bytes mem =
     (Block (next_block mem),
      mem\<lparr>regions := (regions mem)(Block (next_block mem) \<mapsto> replicate (bytes div sizeof T) None),
          next_block := Suc (next_block mem)\<rparr>)"

text \<open>\<^verbatim>\<open>::operator delete(p)\<close> ends a live heap block and is logged; anything else is
  undefined.\<close>

definition operator_delete :: "pointer \<Rightarrow> 'a memory \<Rightarrow> 'a memory option" where
  "operator_delete p mem =
     (case p of
        Inline a \<Rightarrow> None
      | Block b \<Rightarrow>
          (case regions mem p of
             None \<Rightarrow> None
           | Some r \<Rightarrow> Some (mem\<lparr>regions := (regions mem)(p := None), deleted := p # deleted mem\<rparr>)))"

text \<open>Reading \<^verbatim>\<open>p[i]\<close>, placement new at \<^verbatim>\<open>p + i\<close> and the destructor call on \<^verbatim>\<open>p[i]\<close>.\<close>

definition read_at :: "'a memory \<Rightarrow> pointer \<Rightarrow> nat \<Rightarrow> 'a option" where
  "read_at mem p i =
     (case regions mem p of
        None \<Rightarrow> None
      | Some r \<Rightarrow> if i < length r then r ! i else None)"

definition construct_at :: "pointer \<Rightarrow> nat \<Rightarrow> 'a \<Rightarrow> 'a memory \<Rightarrow> 'a memory option" where
  "construct_at p i x mem =
     (case regions mem p of
        None \<Rightarrow> None
      | Some r \<Rightarrow>
          if i < length r then Some (mem\<lparr>regions := (regions mem)(p \<mapsto> r[i := Some x])\<rparr>)
          else None)"

definition destroy_at :: "pointer \<Rightarrow> nat \<Rightarrow> 'a memory \<Rightarrow> 'a memory option" where
  "destroy_at p i mem =
     (case regions mem p of
        None \<Rightarrow> None
      | Some r \<Rightarrow>
          if i < length r \<and> r ! i \<noteq> None
          then Some (mem\<lparr>regions := (regions mem)(p \<mapsto> r[i := None])\<rparr>)
          else None)"

section \<open>The container\<close>

text \<open>The header of a \<^verbatim>\<open>small_vector\<close> living at address \<open>this\<close>; its \<^verbatim>\<open>m_buffer\<close> is the
  region \<open>Inline this\<close> of the store.\<close>

record small_vector =
  this_addr :: nat
  m_size :: nat
  m_capacity :: nat
  m_data :: pointer

definition buffer :: "small_vector \<Rightarrow> pointer" where
  "buffer v = Inline (this_addr v)"

definition uses_buffer :: "nat \<Rightarrow> small_vector \<Rightarrow> bool" where
  "uses_buffer N v = (m_size v \<le> N)"

text \<open>Storage for a new object at address \<open>a\<close>: its \<open>N\<close> buffer slots are raw.\<close>

definition new_object :: "nat \<Rightarrow> nat \<Rightarrow> 'a memory \<Rightarrow> 'a memory" where
  "new_object N a mem = mem\<lparr>regions := (regions mem)(Inline a \<mapsto> replicate N None)\<rparr>"

text \<open>\<^verbatim>\<open>small_vector() noexcept: m_size(0), m_capacity(N), m_data(buffer())\<close>\<close>

definition default_ctor :: "nat \<Rightarrow> nat \<Rightarrow> 'a memory \<Rightarrow> small_vector \<times> 'a memory" where
  "default_ctor N a mem =
     (\<lparr>this_addr = a, m_size = 0, m_capacity = N, m_data = Inline a\<rparr>, new_object N a mem)"

text \<open>\<^verbatim>\<open>operator[]\<close>, unchecked: \<open>None\<close> stands for undefined behaviour.\<close>

definition at :: "'a memory \<Rightarrow> small_vector \<Rightarrow> nat \<Rightarrow> 'a option" where
  "at mem v pos = read_at mem (m_data v) pos"

text \<open>\<^verbatim>\<open>clear\<close>: the loop destroys \<^verbatim>\<open>m_data[i]\<close> for \<open>i\<close> from \<open>0\<close> up to \<^verbatim>\<open>m_size\<close>.\<close>

function destroy_loop :: "pointer \<Rightarrow> nat \<Rightarrow> nat \<Rightarrow> 'a memory \<Rightarrow> 'a memory option" where
  "destroy_loop p i n mem =
     (if i < n then
        (case destroy_at p i mem of
           None \<Rightarrow> None
         | Some mem' \<Rightarrow> destroy_loop p (Suc i) n mem')
      else Some mem)"
  by pat_completeness auto
termination
  by (relation "measure (\<lambda>(p, i, n, mem). n - i)") auto

definition clear :: "small_vector \<Rightarrow> 'a memory \<Rightarrow> (small_vector \<times> 'a memory) option" where
  "clear v mem =
     (case destroy_loop (m_data v) 0 (m_size v) mem of
        None \<Rightarrow> None
      | Some mem' \<Rightarrow> Some (v\<lparr>m_size := 0\<rparr>, mem'))"

text \<open>
  \<^verbatim>\<open>reserve\<close>. The transfer loop constructs \<^verbatim>\<open>tmp[i]\<close> from \<^verbatim>\<open>m_data[i]\<close> and reports the
  value of \<open>i\<close> at which it ended or threw.
\<close>

function transfer_loop ::
  "'a value_type \<Rightarrow> pointer \<Rightarrow> pointer \<Rightarrow> nat \<Rightarrow> nat \<Rightarrow> 'a memory \<Rightarrow>
     (nat \<times> 'a memory, nat \<times> 'a memory) outcome" where
  "transfer_loop T src tmp i n mem =
     (if i < n then
        (case read_at mem src i of
           None \<Rightarrow> Undefined
         | Some x \<Rightarrow>
             (case move_if_noexcept_construct T x of
                None \<Rightarrow> Throws (i, mem)
              | Some y \<Rightarrow>
                  (case construct_at tmp i y mem of
                     None \<Rightarrow> Undefined
                   | Some mem' \<Rightarrow> transfer_loop T src tmp (Suc i) n mem')))
      else Returns (i, mem))"
  by pat_completeness auto
termination
  by (relation "measure (\<lambda>(T, src, tmp, i, n, mem). n - i)") auto

text \<open>The statements of \<^verbatim>\<open>reserve\<close> after the try block (lines 174 to 180).\<close>

definition reserve_adopt ::
  "nat \<Rightarrow> small_vector \<Rightarrow> pointer \<Rightarrow> nat \<Rightarrow> nat \<Rightarrow> 'a memory \<Rightarrow>
     (small_vector \<times> 'a memory, small_vector \<times> 'a memory) outcome" where
  "reserve_adopt N v tmp capacity i mem =
     (case clear v mem of
        None \<Rightarrow> Undefined
      | Some (v1, mem1) \<Rightarrow>
          (case (if \<not> uses_buffer N v1 then operator_delete (m_data v1) mem1 else Some mem1) of
             None \<Rightarrow> Undefined
           | Some mem2 \<Rightarrow>
               Returns (v1\<lparr>m_data := tmp, m_capacity := capacity, m_size := i\<rparr>, mem2)))"

text \<open>
  The handler is \<^verbatim>\<open>for (; i > 0; --i) { (tmp + i - 1)->~value_type(); ::operator delete(tmp); throw; }\<close>:
  its body rethrows in the first iteration, and with \<open>i = 0\<close> the body is not entered, the
  handler ends and control continues after the try block.
\<close>

definition reserve ::
  "'a value_type \<Rightarrow> nat \<Rightarrow> small_vector \<Rightarrow> nat \<Rightarrow> 'a memory \<Rightarrow>
     (small_vector \<times> 'a memory, small_vector \<times> 'a memory) outcome" where
  "reserve T N v capacity mem =
     (if capacity \<le> m_capacity v then Returns (v, mem)
      else
        (case operator_new T (size_mul capacity (sizeof T)) mem of
           (tmp, mem1) \<Rightarrow>
             (case transfer_loop T (m_data v) tmp 0 (m_size v) mem1 of
                Undefined \<Rightarrow> Undefined
              | Throws (i, mem2) \<Rightarrow>
                  if i > 0 then
                    (case destroy_at tmp (i - 1) mem2 of
                       None \<Rightarrow> Undefined
                     | Some mem3 \<Rightarrow>
                         (case operator_delete tmp mem3 of
                            None \<Rightarrow> Undefined
                          | Some mem4 \<Rightarrow> Throws (v, mem4)))
                  else reserve_adopt N v tmp capacity i mem2
              | Returns (i, mem2) \<Rightarrow> reserve_adopt N v tmp capacity i mem2)))"

text \<open>
  \<^verbatim>\<open>emplace_back\<close>. \<open>arg\<close> is what \<^verbatim>\<open>value_type(std::forward<Args>(args)...)\<close> yields, \<open>None\<close>
  when that constructor throws. The returned reference is \<^verbatim>\<open>m_data[m_size - 1]\<close> of the
  resulting container.
\<close>

definition emplace_back ::
  "'a value_type \<Rightarrow> nat \<Rightarrow> small_vector \<Rightarrow> 'a option \<Rightarrow> 'a memory \<Rightarrow>
     (small_vector \<times> 'a memory, small_vector \<times> 'a memory) outcome" where
  "emplace_back T N v arg mem =
     (case (if m_size v \<ge> m_capacity v
            then reserve T N v (if m_capacity v = 0 then 1 else size_mul 2 (m_capacity v)) mem
            else Returns (v, mem)) of
        Undefined \<Rightarrow> Undefined
      | Throws s \<Rightarrow> Throws s
      | Returns (v1, mem1) \<Rightarrow>
          (case arg of
             None \<Rightarrow> Throws (v1, mem1)
           | Some x \<Rightarrow>
               (case construct_at (m_data v1) (m_size v1) x mem1 of
                  None \<Rightarrow> Undefined
                | Some mem2 \<Rightarrow> Returns (v1\<lparr>m_size := Suc (m_size v1)\<rparr>, mem2))))"

text \<open>\<^verbatim>\<open>push_back(const_reference)\<close> and \<^verbatim>\<open>push_back(forward_reference)\<close>; \<open>item\<close> is the
  value of the referenced object, which is not an element of the container itself.\<close>

definition push_back ::
  "'a value_type \<Rightarrow> nat \<Rightarrow> small_vector \<Rightarrow> 'a \<Rightarrow> 'a memory \<Rightarrow>
     (small_vector \<times> 'a memory, small_vector \<times> 'a memory) outcome" where
  "push_back T N v item mem = emplace_back T N v (copy_construct T item) mem"

definition push_back_move ::
  "'a value_type \<Rightarrow> nat \<Rightarrow> small_vector \<Rightarrow> 'a \<Rightarrow> 'a memory \<Rightarrow>
     (small_vector \<times> 'a memory, small_vector \<times> 'a memory) outcome" where
  "push_back_move T N v item mem = emplace_back T N v (move_construct T item) mem"

text \<open>\<^verbatim>\<open>std::swap(m_buffer, other.m_buffer)\<close> exchanges the raw contents of the two inline
  arrays, slot by slot.\<close>

definition swap_buffers :: "nat \<Rightarrow> nat \<Rightarrow> 'a memory \<Rightarrow> 'a memory option" where
  "swap_buffers a b mem =
     (case regions mem (Inline a) of
        None \<Rightarrow> None
      | Some ra \<Rightarrow>
          (case regions mem (Inline b) of
             None \<Rightarrow> None
           | Some rb \<Rightarrow>
               Some (mem\<lparr>regions := (regions mem)(Inline a \<mapsto> rb, Inline b \<mapsto> ra)\<rparr>)))"

text \<open>\<^verbatim>\<open>swap\<close>: four cases on the two mode tests, then capacity and size are exchanged.
  The result is the pair of headers (\<^verbatim>\<open>*this\<close>, \<^verbatim>\<open>other\<close>) and the store; the two
  objects are different ones. The free function \<^verbatim>\<open>swap(a, b)\<close> is \<^verbatim>\<open>a.swap(b)\<close>.\<close>

definition swap ::
  "nat \<Rightarrow> small_vector \<Rightarrow> small_vector \<Rightarrow> 'a memory \<Rightarrow>
     (small_vector \<times> small_vector \<times> 'a memory) option" where
  "swap N v other mem =
     (case
        (if uses_buffer N v \<and> uses_buffer N other then
           map_option (\<lambda>m. (v, other, m)) (swap_buffers (this_addr v) (this_addr other) mem)
         else if uses_buffer N v then
           map_option (\<lambda>m. (v\<lparr>m_data := m_data other\<rparr>, other\<lparr>m_data := buffer other\<rparr>, m))
             (swap_buffers (this_addr v) (this_addr other) mem)
         else if uses_buffer N other then
           map_option (\<lambda>m. (v\<lparr>m_data := buffer v\<rparr>, other\<lparr>m_data := m_data v\<rparr>, m))
             (swap_buffers (this_addr v) (this_addr other) mem)
         else Some (v\<lparr>m_data := m_data other\<rparr>, other\<lparr>m_data := m_data v\<rparr>, mem)) of
        None \<Rightarrow> None
      | Some (v1, o1, mem1) \<Rightarrow>
          Some (v1\<lparr>m_capacity := m_capacity o1, m_size := m_size o1\<rparr>,
                o1\<lparr>m_capacity := m_capacity v1, m_size := m_size v1\<rparr>, mem1))"

text \<open>The move constructor builds the object at address \<open>a\<close> from \<open>other\<close> and returns
  the new header, the header of \<open>other\<close> and the store.\<close>

definition move_ctor ::
  "nat \<Rightarrow> nat \<Rightarrow> small_vector \<Rightarrow> 'a memory \<Rightarrow>
     (small_vector \<times> small_vector \<times> 'a memory) option" where
  "move_ctor N a other mem =
     (let mem0 = new_object N a mem;
          v = \<lparr>this_addr = a, m_size = m_size other, m_capacity = m_capacity other,
               m_data = Inline a\<rparr>
      in case
           (if uses_buffer N other
            then map_option (\<lambda>m. (v, m)) (swap_buffers a (this_addr other) mem0)
            else Some (v\<lparr>m_data := m_data other\<rparr>, mem0)) of
           None \<Rightarrow> None
         | Some (v1, mem1) \<Rightarrow>
             Some (v1, other\<lparr>m_data := buffer other, m_size := 0, m_capacity := N\<rparr>, mem1))"

text \<open>
  \<^verbatim>\<open>std::uninitialized_copy(first, last, dest)\<close>: copy-constructs the elements in order; when
  a copy throws it destroys the ones it has constructed and rethrows.
\<close>

fun copy_loop ::
  "'a value_type \<Rightarrow> 'a list \<Rightarrow> pointer \<Rightarrow> nat \<Rightarrow> 'a memory \<Rightarrow>
     ('a memory, nat \<times> 'a memory) outcome" where
  "copy_loop T [] p i mem = Returns mem"
| "copy_loop T (x # xs) p i mem =
     (case copy_construct T x of
        None \<Rightarrow> Throws (i, mem)
      | Some y \<Rightarrow>
          (case construct_at p i y mem of
             None \<Rightarrow> Undefined
           | Some mem' \<Rightarrow> copy_loop T xs p (Suc i) mem'))"

definition uninitialized_copy ::
  "'a value_type \<Rightarrow> 'a list \<Rightarrow> pointer \<Rightarrow> 'a memory \<Rightarrow> ('a memory, 'a memory) outcome" where
  "uninitialized_copy T init p mem =
     (case copy_loop T init p 0 mem of
        Undefined \<Rightarrow> Undefined
      | Returns mem' \<Rightarrow> Returns mem'
      | Throws (i, mem') \<Rightarrow>
          (case destroy_loop p 0 i mem' of
             None \<Rightarrow> Undefined
           | Some mem'' \<Rightarrow> Throws mem''))"

text \<open>The constructor from \<^verbatim>\<open>std::initializer_list<value_type>\<close>, for the object at
  address \<open>a\<close>. When it throws no object exists and only the store remains.\<close>

definition initializer_list_ctor ::
  "'a value_type \<Rightarrow> nat \<Rightarrow> nat \<Rightarrow> 'a list \<Rightarrow> 'a memory \<Rightarrow>
     (small_vector \<times> 'a memory, 'a memory) outcome" where
  "initializer_list_ctor T N a init mem =
     (let mem0 = new_object N a mem;
          len = length init;
          capacity = len
      in case (if capacity > N then operator_new T (size_mul capacity (sizeof T)) mem0
               else (Inline a, mem0)) of
           (data, mem1) \<Rightarrow>
             (let v = \<lparr>this_addr = a, m_size = len, m_capacity = capacity, m_data = data\<rparr>
              in case uninitialized_copy T init (m_data v) mem1 of
                   Undefined \<Rightarrow> Undefined
                 | Returns mem2 \<Rightarrow> Returns (v, mem2)
                 | Throws mem2 \<Rightarrow>
                     if m_data v \<noteq> buffer v then
                       (case operator_delete (m_data v) mem2 of
                          None \<Rightarrow> Undefined
                        | Some mem3 \<Rightarrow> Throws mem3)
                     else Throws mem2))"

text \<open>The destructor: \<^verbatim>\<open>clear()\<close>, then the mode test decides on the delete.\<close>

definition destructor :: "nat \<Rightarrow> small_vector \<Rightarrow> 'a memory \<Rightarrow> 'a memory option" where
  "destructor N v mem =
     (case clear v mem of
        None \<Rightarrow> None
      | Some (v1, mem1) \<Rightarrow>
          if \<not> uses_buffer N v1 then operator_delete (m_data v1) mem1 else Some mem1)"

text \<open>
  The copy constructor delegates to the default constructor, so the object exists when its
  body runs: an exception leaving the body runs the destructor on what was built so far.
\<close>

function copy_push_loop ::
  "'a value_type \<Rightarrow> nat \<Rightarrow> small_vector \<Rightarrow> nat \<Rightarrow> small_vector \<Rightarrow> 'a memory \<Rightarrow>
     (small_vector \<times> 'a memory, small_vector \<times> 'a memory) outcome" where
  "copy_push_loop T N other i v mem =
     (if i < m_size other then
        (case at mem other i of
           None \<Rightarrow> Undefined
         | Some x \<Rightarrow>
             (case push_back T N v x mem of
                Undefined \<Rightarrow> Undefined
              | Throws s \<Rightarrow> Throws s
              | Returns (v', mem') \<Rightarrow> copy_push_loop T N other (Suc i) v' mem'))
      else Returns (v, mem))"
  by pat_completeness auto
termination
  by (relation "measure (\<lambda>(T, N, other, i, v, mem). m_size other - i)") auto

definition copy_ctor ::
  "'a value_type \<Rightarrow> nat \<Rightarrow> nat \<Rightarrow> small_vector \<Rightarrow> 'a memory \<Rightarrow>
     (small_vector \<times> 'a memory, 'a memory) outcome" where
  "copy_ctor T N a other mem =
     (case default_ctor N a mem of
        (v0, mem0) \<Rightarrow>
          (case
             (case (if m_size other > m_capacity v0 then reserve T N v0 (m_size other) mem0
                    else Returns (v0, mem0)) of
                Undefined \<Rightarrow> Undefined
              | Throws s \<Rightarrow> Throws s
              | Returns (v1, mem1) \<Rightarrow> copy_push_loop T N other 0 v1 mem1) of
             Undefined \<Rightarrow> Undefined
           | Returns s \<Rightarrow> Returns s
           | Throws (v2, mem2) \<Rightarrow>
               (case destructor N v2 mem2 of
                  None \<Rightarrow> Undefined
                | Some mem3 \<Rightarrow> Throws mem3)))"

text \<open>\<^verbatim>\<open>resize\<close>: the growing loop counts \<open>i\<close> from the size after \<^verbatim>\<open>reserve\<close> up to the
  requested size; the shrinking loop decrements \<^verbatim>\<open>m_size\<close> and destroys that element.\<close>

function resize_grow_loop ::
  "'a value_type \<Rightarrow> nat \<Rightarrow> nat \<Rightarrow> nat \<Rightarrow> 'a \<Rightarrow> small_vector \<Rightarrow> 'a memory \<Rightarrow>
     (small_vector \<times> 'a memory, small_vector \<times> 'a memory) outcome" where
  "resize_grow_loop T N i new_size val v mem =
     (if i < new_size then
        (case push_back T N v val mem of
           Undefined \<Rightarrow> Undefined
         | Throws s \<Rightarrow> Throws s
         | Returns (v', mem') \<Rightarrow> resize_grow_loop T N (Suc i) new_size val v' mem')
      else Returns (v, mem))"
  by pat_completeness auto
termination
  by (relation "measure (\<lambda>(T, N, i, new_size, val, v, mem). new_size - i)") auto

function resize_shrink_loop ::
  "small_vector \<Rightarrow> nat \<Rightarrow> 'a memory \<Rightarrow> (small_vector \<times> 'a memory) option" where
  "resize_shrink_loop v new_size mem =
     (if m_size v > new_size then
        (case destroy_at (m_data v) (m_size v - 1) mem of
           None \<Rightarrow> None
         | Some mem' \<Rightarrow> resize_shrink_loop (v\<lparr>m_size := m_size v - 1\<rparr>) new_size mem')
      else Some (v, mem))"
  by pat_completeness auto
termination
  by (relation "measure (\<lambda>(v, new_size, mem). m_size v - new_size)") auto

definition resize ::
  "'a value_type \<Rightarrow> nat \<Rightarrow> small_vector \<Rightarrow> nat \<Rightarrow> 'a \<Rightarrow> 'a memory \<Rightarrow>
     (small_vector \<times> 'a memory, small_vector \<times> 'a memory) outcome" where
  "resize T N v new_size val mem =
     (if new_size = m_size v then Returns (v, mem)
      else if new_size > m_size v then
        (case reserve T N v new_size mem of
           Undefined \<Rightarrow> Undefined
         | Throws s \<Rightarrow> Throws s
         | Returns (v1, mem1) \<Rightarrow> resize_grow_loop T N (m_size v1) new_size val v1 mem1)
      else
        (case resize_shrink_loop v new_size mem of
           None \<Rightarrow> Undefined
         | Some s \<Rightarrow> Returns s))"

text \<open>Assignment through the reference that \<^verbatim>\<open>operator[]\<close> returns: \<^verbatim>\<open>v[pos] = x\<close> on a live
  element.\<close>

definition put :: "'a memory \<Rightarrow> small_vector \<Rightarrow> nat \<Rightarrow> 'a \<Rightarrow> 'a memory option" where
  "put mem v pos x =
     (case regions mem (m_data v) of
        None \<Rightarrow> None
      | Some r \<Rightarrow>
          if pos < length r \<and> r ! pos \<noteq> None
          then Some (mem\<lparr>regions := (regions mem)(m_data v \<mapsto> r[pos := Some x])\<rparr>)
          else None)"

section \<open>Specification vocabulary\<close>

text \<open>The sequence \<^verbatim>\<open>v[0], ..., v[size() - 1]\<close> as \<^verbatim>\<open>operator[]\<close> reads it.\<close>

definition elements :: "'a memory \<Rightarrow> small_vector \<Rightarrow> 'a option list" where
  "elements mem v = map (at mem v) [0..<m_size v]"

text \<open>
  The invariants of the data model: the size is at most the capacity, the active region is
  alive, has room for \<^verbatim>\<open>m_capacity\<close> elements and fits in the address space, and the
  first \<^verbatim>\<open>m_size\<close> slots hold live objects.
\<close>

definition valid :: "'a value_type \<Rightarrow> 'a memory \<Rightarrow> small_vector \<Rightarrow> bool" where
  "valid T mem v \<longleftrightarrow>
     m_size v \<le> m_capacity v \<and>
     m_capacity v * sizeof T < 2 ^ 64 \<and>
     (case regions mem (m_data v) of None \<Rightarrow> False | Some r \<Rightarrow> m_capacity v \<le> length r) \<and>
     None \<notin> set (elements mem v)"

text \<open>Block addresses from \<^verbatim>\<open>next_block\<close> on have not been handed out.\<close>

definition heap_ok :: "'a memory \<Rightarrow> bool" where
  "heap_ok mem \<longleftrightarrow> (\<forall>b. next_block mem \<le> b \<longrightarrow> regions mem (Block b) = None)"

text \<open>
  The states one container goes through: built by the default, the literal or the copy
  constructor, then changed by \<^verbatim>\<open>emplace_back\<close> (and so \<^verbatim>\<open>push_back\<close>), \<^verbatim>\<open>reserve\<close>,
  \<^verbatim>\<open>clear\<close> and \<^verbatim>\<open>resize\<close>, whether they return or throw, while other code may change
  the store in between. The third argument records the capacity that the constructor chose.
\<close>

inductive reachable ::
  "'a value_type \<Rightarrow> nat \<Rightarrow> nat \<Rightarrow> small_vector \<times> 'a memory \<Rightarrow> bool" for T :: "'a value_type" and N :: nat
  where
    by_default: "default_ctor N a mem = s \<Longrightarrow> reachable T N N s"
  | by_literal: "initializer_list_ctor T N a init mem = Returns s \<Longrightarrow> reachable T N (length init) s"
  | by_copy: "copy_ctor T N a other mem = Returns s \<Longrightarrow> reachable T N N s"
  | by_emplace_back:
      "reachable T N c (v, mem) \<Longrightarrow> emplace_back T N v arg mem = Returns s \<Longrightarrow> reachable T N c s"
  | by_emplace_back_throw:
      "reachable T N c (v, mem) \<Longrightarrow> emplace_back T N v arg mem = Throws s \<Longrightarrow> reachable T N c s"
  | by_reserve:
      "reachable T N c (v, mem) \<Longrightarrow> reserve T N v capacity mem = Returns s \<Longrightarrow> reachable T N c s"
  | by_reserve_throw:
      "reachable T N c (v, mem) \<Longrightarrow> reserve T N v capacity mem = Throws s \<Longrightarrow> reachable T N c s"
  | by_clear: "reachable T N c (v, mem) \<Longrightarrow> clear v mem = Some s \<Longrightarrow> reachable T N c s"
  | by_resize:
      "reachable T N c (v, mem) \<Longrightarrow> resize T N v new_size val mem = Returns s \<Longrightarrow> reachable T N c s"
  | by_resize_throw:
      "reachable T N c (v, mem) \<Longrightarrow> resize T N v new_size val mem = Throws s \<Longrightarrow> reachable T N c s"
  | by_other_code: "reachable T N c (v, mem) \<Longrightarrow> reachable T N c (v, mem')"

text \<open>
  One call on a container either keeps \<^verbatim>\<open>m_data\<close> and \<^verbatim>\<open>m_capacity\<close> or leaves
  \<^verbatim>\<open>m_data\<close> on a heap block; the object stays where it is.
\<close>

definition header_step :: "small_vector \<Rightarrow> small_vector \<Rightarrow> bool" where
  "header_step v v' \<longleftrightarrow>
     this_addr v' = this_addr v \<and>
     ((m_data v' = m_data v \<and> m_capacity v' = m_capacity v) \<or> (\<exists>b. m_data v' = Block b))"

text \<open>A live region \<open>q\<close> that is not the active region of \<open>v\<close>, in a store whose fresh
  block addresses are unused.\<close>

definition apart :: "pointer \<Rightarrow> small_vector \<Rightarrow> 'a memory \<Rightarrow> bool" where
  "apart q v mem \<longleftrightarrow> heap_ok mem \<and> regions mem q \<noteq> None \<and> m_data v \<noteq> q"

text \<open>
  \<open>mutated T N s s'\<close>: the state \<open>s'\<close> of a container and the store results from \<open>s\<close> by
  any number of element assignments, \<^verbatim>\<open>emplace_back\<close> (and so \<^verbatim>\<open>push_back\<close>),
  \<^verbatim>\<open>reserve\<close>, \<^verbatim>\<open>clear\<close> and \<^verbatim>\<open>resize\<close> calls on that container, whether they return
  or throw.
\<close>

inductive mutated ::
  "'a value_type \<Rightarrow> nat \<Rightarrow> small_vector \<times> 'a memory \<Rightarrow> small_vector \<times> 'a memory \<Rightarrow> bool"
  for T :: "'a value_type" and N :: nat
  where
    not_yet: "mutated T N s s"
  | after_put: "mutated T N s (v, mem) \<Longrightarrow> put mem v pos x = Some mem' \<Longrightarrow> mutated T N s (v, mem')"
  | after_emplace_back:
      "mutated T N s (v, mem) \<Longrightarrow> emplace_back T N v arg mem = Returns s' \<Longrightarrow> mutated T N s s'"
  | after_emplace_back_throw:
      "mutated T N s (v, mem) \<Longrightarrow> emplace_back T N v arg mem = Throws s' \<Longrightarrow> mutated T N s s'"
  | after_reserve:
      "mutated T N s (v, mem) \<Longrightarrow> reserve T N v capacity mem = Returns s' \<Longrightarrow> mutated T N s s'"
  | after_reserve_throw:
      "mutated T N s (v, mem) \<Longrightarrow> reserve T N v capacity mem = Throws s' \<Longrightarrow> mutated T N s s'"
  | after_clear: "mutated T N s (v, mem) \<Longrightarrow> clear v mem = Some s' \<Longrightarrow> mutated T N s s'"
  | after_resize:
      "mutated T N s (v, mem) \<Longrightarrow> resize T N v new_size val mem = Returns s' \<Longrightarrow> mutated T N s s'"
  | after_resize_throw:
      "mutated T N s (v, mem) \<Longrightarrow> resize T N v new_size val mem = Throws s' \<Longrightarrow> mutated T N s s'"

section \<open>Concrete element types and stores\<close>

definition empty_memory :: "nat memory" where
  "empty_memory = \<lparr>regions = (\<lambda>p. None), next_block = 0, deleted = []\<rparr>"

text \<open>A four-byte element type that never throws, and a copy constructible one whose copy
  constructor throws on the value 13 and whose move constructor is not declared
  \<^verbatim>\<open>noexcept\<close>.\<close>

definition plain_T :: "nat value_type" where
  "plain_T = \<lparr>sizeof = 4, copy_throws = (\<lambda>x. False), move_throws = (\<lambda>x. False),
     is_nothrow_move_constructible = True, is_copy_constructible = True\<rparr>"

definition fragile_T :: "nat value_type" where
  "fragile_T = \<lparr>sizeof = 4, copy_throws = (\<lambda>x. x = 13), move_throws = (\<lambda>x. False),
     is_nothrow_move_constructible = False, is_copy_constructible = True\<rparr>"

text \<open>A container that is full: one element in a buffer of one slot.\<close>

definition full_vector :: small_vector where
  "full_vector = \<lparr>this_addr = 0, m_size = 1, m_capacity = 1, m_data = Inline 0\<rparr>"

definition full_memory :: "nat memory" where
  "full_memory = \<lparr>regions = (\<lambda>p. None)(Inline 0 \<mapsto> [Some 5]), next_block = 0, deleted = []\<rparr>"

text \<open>The header of the container built from the literal \<open>{10, 20, 30}\<close> with \<open>N = 8\<close>.\<close>

definition literal_vector :: small_vector where
  "literal_vector = \<lparr>this_addr = 0, m_size = 3, m_capacity = 3, m_data = Inline 0\<rparr>"

section \<open>Unfolding the definitions\<close>

lemmas prim_defs = operator_new_def operator_delete_def read_at_def construct_at_def
  destroy_at_def size_mul_def copy_construct_def move_construct_def
  move_if_noexcept_construct_def new_object_def buffer_def uses_buffer_def at_def
  swap_buffers_def

lemmas op_defs = default_ctor_def clear_def reserve_def reserve_adopt_def emplace_back_def
  push_back_def swap_def move_ctor_def uninitialized_copy_def initializer_list_ctor_def
  destructor_def copy_ctor_def resize_def

lemmas fixture_defs = empty_memory_def plain_T_def fragile_T_def

section \<open>Storage primitives and loops\<close>

lemma construct_at_Some:
  "regions mem p = Some r \<Longrightarrow> i < length r \<Longrightarrow>
   construct_at p i x mem = Some (mem\<lparr>regions := (regions mem)(p \<mapsto> r[i := Some x])\<rparr>)"
  by (simp add: construct_at_def)

lemma destroy_at_Some:
  "regions mem p = Some r \<Longrightarrow> i < length r \<Longrightarrow> r ! i \<noteq> None \<Longrightarrow>
   destroy_at p i mem = Some (mem\<lparr>regions := (regions mem)(p \<mapsto> r[i := None])\<rparr>)"
  by (simp add: destroy_at_def)

lemma regions_idem: "regions mem p = Some r \<Longrightarrow> mem\<lparr>regions := (regions mem)(p \<mapsto> r)\<rparr> = mem"
  by (simp add: fun_upd_idem)

lemma elements_take:
  "regions mem (m_data v) = Some r \<Longrightarrow> m_size v \<le> length r \<Longrightarrow>
   elements mem v = take (m_size v) r"
  by (auto simp: elements_def at_def read_at_def list_eq_iff_nth_eq)

lemma elements_same_region:
  "regions mem' (m_data v) = regions mem (m_data v) \<Longrightarrow> elements mem' v = elements mem v"
  by (simp add: elements_def at_def read_at_def)

lemma size_mul_div: "0 < s \<Longrightarrow> n * s < 2 ^ 64 \<Longrightarrow> size_mul n s div s = n"
  by (simp add: size_mul_def)

lemma copy_loop_ok:
  "regions mem p = Some r \<Longrightarrow> i + length xs \<le> length r \<Longrightarrow>
   \<forall>x\<in>set xs. \<not> copy_throws T x \<Longrightarrow>
   copy_loop T xs p i mem =
     Returns (mem\<lparr>regions := (regions mem)(p \<mapsto> take i r @ map Some xs @ drop (i + length xs) r)\<rparr>)"
proof (induction xs arbitrary: i mem r)
  case Nil
  have "mem\<lparr>regions := (regions mem)(p \<mapsto> r)\<rparr> = mem"
    using Nil.prems(1) by (rule regions_idem)
  moreover have "take i r @ map Some [] @ drop (i + length ([]::'a list)) r = r" by simp
  ultimately show ?case by (simp only: copy_loop.simps)
next
  case (Cons x xs)
  let ?mem = "mem\<lparr>regions := (regions mem)(p \<mapsto> r[i := Some x])\<rparr>"
  have i: "i < length r" using Cons.prems by simp
  have c: "construct_at p i x mem = Some ?mem"
    using Cons.prems(1) i by (rule construct_at_Some)
  have ih: "copy_loop T xs p (Suc i) ?mem =
     Returns (?mem\<lparr>regions := (regions ?mem)(p \<mapsto> take (Suc i) (r[i := Some x]) @ map Some xs @
        drop (Suc i + length xs) (r[i := Some x]))\<rparr>)"
    using Cons.prems by (intro Cons.IH) auto
  have l: "take (Suc i) (r[i := Some x]) = take i r @ [Some x]"
    using i by (simp add: take_Suc_conv_app_nth)
  show ?case using Cons.prems c ih l
    by (simp add: copy_construct_def) (simp add: fun_upd_def)
qed

lemma move_if_noexcept_construct_Some:
  "move_if_noexcept_construct T x \<noteq> None \<Longrightarrow> move_if_noexcept_construct T x = Some x"
  by (simp add: move_if_noexcept_construct_def move_construct_def copy_construct_def split: if_splits)

lemma transfer_loop_ok:
  assumes "regions mem src = Some r" and "regions mem tmp = Some t" and "src \<noteq> tmp"
    and "i \<le> n" and "n \<le> length r" and "n \<le> length t"
    and "\<forall>k. i \<le> k \<and> k < n \<longrightarrow> (\<exists>x. r ! k = Some x \<and> move_if_noexcept_construct T x \<noteq> None)"
  shows "transfer_loop T src tmp i n mem =
     Returns (n, mem\<lparr>regions := (regions mem)(tmp \<mapsto> take i t @ take (n - i) (drop i r) @ drop n t)\<rparr>)"
  using assms
proof (induction "n - i" arbitrary: i mem t)
  case 0
  then have e: "i = n" by simp
  have A: "take i t @ take (n - i) (drop i r) @ drop n t = t"
    using e by simp
  have B: "transfer_loop T src tmp i n mem = Returns (n, mem)"
    using e by (subst transfer_loop.simps) simp
  show ?case
    unfolding A B regions_idem[OF "0.prems"(2)] ..
next
  case (Suc d)
  then have i: "i < n" by simp
  have "\<exists>x. r ! i = Some x \<and> move_if_noexcept_construct T x \<noteq> None"
    using Suc.prems(7) i by (elim allE[of _ i]) simp
  then obtain x where x0: "r ! i = Some x" "move_if_noexcept_construct T x \<noteq> None"
    by blast
  have x: "r ! i = Some x" "move_if_noexcept_construct T x = Some x"
    using x0 by (simp_all add: move_if_noexcept_construct_Some)
  let ?mem = "mem\<lparr>regions := (regions mem)(tmp \<mapsto> t[i := Some x])\<rparr>"
  have rd: "read_at mem src i = Some x"
    using Suc.prems i x by (simp add: read_at_def)
  have c: "construct_at tmp i x mem = Some ?mem"
    using Suc.prems i by (intro construct_at_Some) auto
  have ih: "transfer_loop T src tmp (Suc i) n ?mem =
     Returns (n, ?mem\<lparr>regions := (regions ?mem)(tmp \<mapsto> take (Suc i) (t[i := Some x]) @
        take (n - Suc i) (drop (Suc i) r) @ drop n (t[i := Some x]))\<rparr>)"
    using Suc.prems Suc.hyps(2) i by (intro Suc.hyps(1)) auto
  have l1: "take (Suc i) (t[i := Some x]) = take i t @ [Some x]"
    using i Suc.prems by (simp add: take_Suc_conv_app_nth)
  have l2: "take (n - i) (drop i r) = Some x # take (n - Suc i) (drop (Suc i) r)"
  proof -
    have "drop i r = r ! i # drop (Suc i) r"
      using i Suc.prems by (simp add: Cons_nth_drop_Suc)
    moreover have "n - i = Suc (n - Suc i)"
      using i by simp
    ultimately show ?thesis
      using x(1) by simp
  qed
  have l3: "drop n (t[i := Some x]) = drop n t"
    using i by simp
  have step: "transfer_loop T src tmp i n mem = transfer_loop T src tmp (Suc i) n ?mem"
    using i rd c x by (subst transfer_loop.simps) simp
  show ?case
    unfolding step ih l1 l2 l3 by simp
qed

lemma destroy_loop_ok:
  assumes "regions mem p = Some r" and "i \<le> n" and "n \<le> length r"
    and "\<forall>k. i \<le> k \<and> k < n \<longrightarrow> r ! k \<noteq> None"
  shows "destroy_loop p i n mem =
     Some (mem\<lparr>regions := (regions mem)(p \<mapsto> take i r @ replicate (n - i) None @ drop n r)\<rparr>)"
  using assms
proof (induction "n - i" arbitrary: i mem r)
  case 0
  then have e: "i = n" by simp
  have A: "take i r @ replicate (n - i) None @ drop n r = r"
    using e by simp
  have B: "destroy_loop p i n mem = Some mem"
    using e by (subst destroy_loop.simps) simp
  show ?case
    unfolding A B regions_idem[OF "0.prems"(1)] ..
next
  case (Suc d)
  then have i: "i < n" by simp
  let ?mem = "mem\<lparr>regions := (regions mem)(p \<mapsto> r[i := None])\<rparr>"
  have c: "destroy_at p i mem = Some ?mem"
    using Suc.prems i by (intro destroy_at_Some) auto
  have ih: "destroy_loop p (Suc i) n ?mem =
     Some (?mem\<lparr>regions := (regions ?mem)(p \<mapsto> take (Suc i) (r[i := None]) @
        replicate (n - Suc i) None @ drop n (r[i := None]))\<rparr>)"
    using Suc.prems Suc.hyps(2) i by (intro Suc.hyps(1)) auto
  have l1: "take (Suc i) (r[i := None]) = take i r @ [None]"
    using i Suc.prems by (simp add: take_Suc_conv_app_nth)
  have l2: "replicate (n - i) None = (None :: 'a option) # replicate (n - Suc i) None"
  proof -
    have "n - i = Suc (n - Suc i)"
      using i by simp
    then show ?thesis by simp
  qed
  have l3: "drop n (r[i := None]) = drop n r"
    using i by simp
  have step: "destroy_loop p i n mem = destroy_loop p (Suc i) n ?mem"
    using i c by (subst destroy_loop.simps) simp
  show ?case
    unfolding step ih l1 l2 l3 by simp
qed

lemma heap_ok_fresh: "heap_ok mem \<Longrightarrow> regions mem (Block (next_block mem)) = None"
  by (simp add: heap_ok_def)

lemma heap_ok_upd:
  assumes "heap_ok mem" and "regions mem p \<noteq> None"
  shows "heap_ok (mem\<lparr>regions := (regions mem)(p \<mapsto> r)\<rparr>)"
  using assms by (auto simp: heap_ok_def)

lemma heap_ok_grown:
  assumes "heap_ok mem" and "regions mem p \<noteq> None"
  shows "heap_ok (mem\<lparr>regions := (regions mem)(Block (next_block mem) \<mapsto> t, p \<mapsto> r),
                     next_block := Suc (next_block mem)\<rparr>)"
  using assms by (auto simp: heap_ok_def)

section \<open>Validity\<close>

lemma validD:
  assumes "valid T mem v"
  shows "\<exists>r. regions mem (m_data v) = Some r \<and> m_capacity v \<le> length r \<and>
             m_size v \<le> m_capacity v \<and> m_capacity v * sizeof T < 2 ^ 64 \<and>
             elements mem v = take (m_size v) r \<and> None \<notin> set (take (m_size v) r)"
proof -
  from assms obtain r where r: "regions mem (m_data v) = Some r" "m_capacity v \<le> length r"
    by (auto simp: valid_def split: option.splits)
  from assms have s: "m_size v \<le> m_capacity v" "m_capacity v * sizeof T < 2 ^ 64"
    "None \<notin> set (elements mem v)"
    by (simp_all add: valid_def)
  have "elements mem v = take (m_size v) r"
    using r s by (intro elements_take) auto
  with r s show ?thesis by auto
qed

lemma validI:
  assumes "regions mem (m_data v) = Some r" and "m_capacity v \<le> length r"
    and "m_size v \<le> m_capacity v" and "m_capacity v * sizeof T < 2 ^ 64"
    and "None \<notin> set (take (m_size v) r)"
  shows "valid T mem v"
proof -
  have "elements mem v = take (m_size v) r"
    using assms by (intro elements_take) auto
  then show ?thesis using assms by (simp add: valid_def)
qed

lemma take_live:
  assumes "None \<notin> set (take n r)" and "n \<le> length r" and "k < n"
  shows "\<exists>x. r ! k = Some x \<and> Some x \<in> set (take n r)"
proof -
  have "take n r ! k \<in> set (take n r)"
    using assms by (intro nth_mem) simp
  then have m: "r ! k \<in> set (take n r)"
    using assms by simp
  with assms(1) have "r ! k \<noteq> None" by metis
  then obtain x where "r ! k = Some x" by auto
  with m show ?thesis by auto
qed

lemma transfer_live:
  assumes "None \<notin> set (take n r)" and "n \<le> length r"
    and "\<forall>y. Some y \<in> set (take n r) \<longrightarrow> move_if_noexcept_construct T y \<noteq> None"
  shows "\<forall>k. k < n \<longrightarrow> (\<exists>y. r ! k = Some y \<and> move_if_noexcept_construct T y \<noteq> None)"
  using assms take_live by blast

lemma full_valid: "valid plain_T full_memory full_vector"
  by (simp add: valid_def elements_def at_def read_at_def full_vector_def full_memory_def plain_T_def)

lemma full_heap_ok: "heap_ok full_memory"
  by (simp add: heap_ok_def full_memory_def)

lemma full_elements: "elements full_memory full_vector = [Some 5]"
  by (simp add: elements_def at_def read_at_def full_vector_def full_memory_def)

section \<open>Growth, appending and copying\<close>

lemma reserve_grows:
  assumes r: "regions mem (m_data v) = Some r" and sz: "m_size v \<le> length r"
    and live: "\<forall>k. k < m_size v \<longrightarrow> (\<exists>x. r ! k = Some x \<and> move_if_noexcept_construct T x \<noteq> None)"
    and ok: "heap_ok mem" and grow: "m_capacity v < capacity" and le: "m_size v \<le> capacity"
    and fits: "capacity * sizeof T < 2 ^ 64" and pos: "0 < sizeof T"
  shows "reserve T N v capacity mem =
     Returns (v\<lparr>m_data := Block (next_block mem), m_capacity := capacity\<rparr>,
       mem\<lparr>regions := (regions mem)
              (Block (next_block mem) \<mapsto> take (m_size v) r @ replicate (capacity - m_size v) None,
               m_data v \<mapsto> replicate (m_size v) None @ drop (m_size v) r),
           next_block := Suc (next_block mem)\<rparr>)"
proof -
  let ?tmp = "Block (next_block mem)"
  let ?n = "m_size v"
  have ne: "m_data v \<noteq> ?tmp"
    using r heap_ok_fresh[OF ok] by auto
  let ?mem1 = "mem\<lparr>regions := (regions mem)(?tmp \<mapsto> replicate capacity None),
                   next_block := Suc (next_block mem)\<rparr>"
  have new: "operator_new T (size_mul capacity (sizeof T)) mem = (?tmp, ?mem1)"
    using fits pos by (simp add: operator_new_def size_mul_div)
  let ?mem2 = "?mem1\<lparr>regions := (regions ?mem1)(?tmp \<mapsto> take ?n r @ replicate (capacity - ?n) None)\<rparr>"
  have "transfer_loop T (m_data v) ?tmp 0 ?n ?mem1 =
     Returns (?n, ?mem1\<lparr>regions := (regions ?mem1)(?tmp \<mapsto> take 0 (replicate capacity None) @
        take (?n - 0) (drop 0 r) @ drop ?n (replicate capacity None))\<rparr>)"
    using r ne sz le live by (intro transfer_loop_ok) auto
  then have tr: "transfer_loop T (m_data v) ?tmp 0 ?n ?mem1 = Returns (?n, ?mem2)"
    by simp
  let ?mem3 = "?mem2\<lparr>regions := (regions ?mem2)(m_data v \<mapsto> replicate ?n None @ drop ?n r)\<rparr>"
  have "destroy_loop (m_data v) 0 ?n ?mem2 =
     Some (?mem2\<lparr>regions := (regions ?mem2)(m_data v \<mapsto> take 0 r @ replicate (?n - 0) None @ drop ?n r)\<rparr>)"
    using r ne sz live by (intro destroy_loop_ok) auto
  then have cl: "clear v ?mem2 = Some (v\<lparr>m_size := 0\<rparr>, ?mem3)"
    by (simp add: clear_def)
  have ad: "reserve_adopt N v ?tmp capacity ?n ?mem2 =
     Returns (v\<lparr>m_data := ?tmp, m_capacity := capacity\<rparr>, ?mem3)"
    unfolding reserve_adopt_def cl by (simp add: uses_buffer_def)
  have "reserve T N v capacity mem = Returns (v\<lparr>m_data := ?tmp, m_capacity := capacity\<rparr>, ?mem3)"
    using grow tr ad unfolding reserve_def new by (simp del: transfer_loop.simps)
  then show ?thesis by simp
qed

lemma emplace_back_room:
  assumes "regions mem (m_data v) = Some r" and "m_size v < m_capacity v"
    and "m_capacity v \<le> length r"
  shows "emplace_back T N v (Some x) mem =
     Returns (v\<lparr>m_size := Suc (m_size v)\<rparr>,
              mem\<lparr>regions := (regions mem)(m_data v \<mapsto> r[m_size v := Some x])\<rparr>)"
    and "emplace_back T N v None mem = Throws (v, mem)"
  using assms by (simp_all add: emplace_back_def construct_at_def)

lemma growth_capacity:
  assumes "max 1 (2 * c) * s < 2 ^ 64" and "0 < (s::nat)"
  shows "(if c = 0 then 1 else size_mul 2 c) = max 1 (2 * c)"
proof (cases "c = 0")
  case True
  then show ?thesis by simp
next
  case False
  have "2 * c \<le> 2 * c * s" using assms(2) by simp
  also have "\<dots> < 2 ^ 64" using assms(1) False by (simp add: max_def split: if_splits)
  finally show ?thesis using False by (simp add: size_mul_def)
qed

lemma emplace_back_full:
  assumes r: "regions mem (m_data v) = Some r" and full: "m_size v = m_capacity v"
    and len: "m_capacity v \<le> length r"
    and live: "\<forall>k. k < m_size v \<longrightarrow> (\<exists>y. r ! k = Some y \<and> move_if_noexcept_construct T y \<noteq> None)"
    and ok: "heap_ok mem" and fits: "max 1 (2 * m_capacity v) * sizeof T < 2 ^ 64"
    and pos: "0 < sizeof T"
  shows "emplace_back T N v (Some x) mem =
     Returns (v\<lparr>m_data := Block (next_block mem), m_capacity := max 1 (2 * m_capacity v),
                m_size := Suc (m_size v)\<rparr>,
       mem\<lparr>regions := (regions mem)
              (Block (next_block mem) \<mapsto>
                 (take (m_size v) r @ replicate (max 1 (2 * m_capacity v) - m_size v) None)[m_size v := Some x],
               m_data v \<mapsto> replicate (m_size v) None @ drop (m_size v) r),
           next_block := Suc (next_block mem)\<rparr>)"
    and "emplace_back T N v None mem =
     Throws (v\<lparr>m_data := Block (next_block mem), m_capacity := max 1 (2 * m_capacity v)\<rparr>,
       mem\<lparr>regions := (regions mem)
              (Block (next_block mem) \<mapsto>
                 take (m_size v) r @ replicate (max 1 (2 * m_capacity v) - m_size v) None,
               m_data v \<mapsto> replicate (m_size v) None @ drop (m_size v) r),
           next_block := Suc (next_block mem)\<rparr>)"
proof -
  let ?c = "max 1 (2 * m_capacity v)"
  let ?tmp = "Block (next_block mem)"
  have c: "(if m_capacity v = 0 then 1 else size_mul 2 (m_capacity v)) = ?c"
    using fits pos by (rule growth_capacity)
  have ne: "m_data v \<noteq> ?tmp"
    using r heap_ok_fresh[OF ok] by auto
  have res: "reserve T N v ?c mem =
     Returns (v\<lparr>m_data := ?tmp, m_capacity := ?c\<rparr>,
       mem\<lparr>regions := (regions mem)
              (?tmp \<mapsto> take (m_size v) r @ replicate (?c - m_size v) None,
               m_data v \<mapsto> replicate (m_size v) None @ drop (m_size v) r),
           next_block := Suc (next_block mem)\<rparr>)"
    using r full len live ok fits pos by (intro reserve_grows) auto
  show "emplace_back T N v None mem =
     Throws (v\<lparr>m_data := ?tmp, m_capacity := ?c\<rparr>,
       mem\<lparr>regions := (regions mem)
              (?tmp \<mapsto> take (m_size v) r @ replicate (?c - m_size v) None,
               m_data v \<mapsto> replicate (m_size v) None @ drop (m_size v) r),
           next_block := Suc (next_block mem)\<rparr>)"
    using full unfolding emplace_back_def c res by simp
  have "m_size v < ?c" using full by simp
  then show "emplace_back T N v (Some x) mem =
     Returns (v\<lparr>m_data := ?tmp, m_capacity := ?c, m_size := Suc (m_size v)\<rparr>,
       mem\<lparr>regions := (regions mem)
              (?tmp \<mapsto> (take (m_size v) r @ replicate (?c - m_size v) None)[m_size v := Some x],
               m_data v \<mapsto> replicate (m_size v) None @ drop (m_size v) r),
           next_block := Suc (next_block mem)\<rparr>)"
    using full len ne unfolding emplace_back_def c res
    by (simp add: construct_at_def fun_upd_twist)
qed

lemma copy_push_loop_ok:
  assumes "regions mem (m_data other) = Some r" and "regions mem (m_data v) = Some t"
    and "m_data v \<noteq> m_data other" and "m_size v = i" and "i \<le> m_size other"
    and "m_size other \<le> length r" and "m_size other \<le> m_capacity v" and "m_capacity v \<le> length t"
    and "\<forall>k. i \<le> k \<and> k < m_size other \<longrightarrow> (\<exists>x. r ! k = Some x \<and> \<not> copy_throws T x)"
  shows "copy_push_loop T N other i v mem =
     Returns (v\<lparr>m_size := m_size other\<rparr>,
       mem\<lparr>regions := (regions mem)(m_data v \<mapsto>
          take i t @ take (m_size other - i) (drop i r) @ drop (m_size other) t)\<rparr>)"
  using assms
proof (induction "m_size other - i" arbitrary: i mem t v)
  case 0
  then have e: "i = m_size other" by simp
  have A: "take i t @ take (m_size other - i) (drop i r) @ drop (m_size other) t = t"
    using e by simp
  have B: "copy_push_loop T N other i v mem = Returns (v, mem)"
    using e by (subst copy_push_loop.simps) simp
  have C: "v\<lparr>m_size := m_size other\<rparr> = v"
    using "0.prems"(4) e by simp
  show ?case
    unfolding A B C regions_idem[OF "0.prems"(2)] ..
next
  case (Suc d)
  let ?n = "m_size other"
  from Suc have i: "i < ?n" by simp
  have "\<exists>x. r ! i = Some x \<and> \<not> copy_throws T x"
    using Suc.prems(9) i by (elim allE[of _ i]) simp
  then obtain x where x: "r ! i = Some x" "\<not> copy_throws T x"
    by blast
  let ?v = "v\<lparr>m_size := Suc i\<rparr>"
  let ?mem = "mem\<lparr>regions := (regions mem)(m_data v \<mapsto> t[i := Some x])\<rparr>"
  have rd: "at mem other i = Some x"
    using Suc.prems i x by (simp add: at_def read_at_def)
  have "emplace_back T N v (Some x) mem =
     Returns (v\<lparr>m_size := Suc (m_size v)\<rparr>,
              mem\<lparr>regions := (regions mem)(m_data v \<mapsto> t[m_size v := Some x])\<rparr>)"
    using Suc.prems i by (intro emplace_back_room) auto
  then have pb: "push_back T N v x mem = Returns (?v, ?mem)"
    using x Suc.prems(4) by (simp add: push_back_def copy_construct_def)
  have ih: "copy_push_loop T N other (Suc i) ?v ?mem =
     Returns (?v\<lparr>m_size := ?n\<rparr>,
       ?mem\<lparr>regions := (regions ?mem)(m_data ?v \<mapsto>
          take (Suc i) (t[i := Some x]) @ take (?n - Suc i) (drop (Suc i) r) @
          drop ?n (t[i := Some x]))\<rparr>)"
    using Suc.prems Suc.hyps(2) i by (intro Suc.hyps(1)) auto
  have l1: "take (Suc i) (t[i := Some x]) = take i t @ [Some x]"
    using i Suc.prems by (simp add: take_Suc_conv_app_nth)
  have l2: "take (?n - i) (drop i r) = Some x # take (?n - Suc i) (drop (Suc i) r)"
  proof -
    have "drop i r = r ! i # drop (Suc i) r"
      using i Suc.prems by (simp add: Cons_nth_drop_Suc)
    moreover have "?n - i = Suc (?n - Suc i)"
      using i by simp
    ultimately show ?thesis
      using x(1) by simp
  qed
  have l3: "drop ?n (t[i := Some x]) = drop ?n t"
    using i by simp
  have step: "copy_push_loop T N other i v mem = copy_push_loop T N other (Suc i) ?v ?mem"
    using i rd pb by (subst copy_push_loop.simps) simp
  show ?case
    unfolding step ih l1 l2 l3 by simp
qed

lemma copy_ctor_ok:
  assumes v: "valid T mem other" and ok: "heap_ok mem" and pos: "0 < sizeof T"
    and fresh: "m_data other \<noteq> Inline a" and fitN: "N * sizeof T < 2 ^ 64"
    and nothrow: "\<forall>x. Some x \<in> set (elements mem other) \<longrightarrow> \<not> copy_throws T x"
  shows "\<exists>d mem'. copy_ctor T N a other mem = Returns (d, mem') \<and>
      this_addr d = a \<and> m_size d = m_size other \<and>
      m_capacity d = max N (m_size other) \<and>
      m_data d = (if N < m_size other then Block (next_block mem) else Inline a) \<and>
      elements mem' d = elements mem other \<and>
      regions mem' (m_data other) = regions mem (m_data other) \<and>
      m_data d \<noteq> m_data other \<and>
      valid T mem' d \<and> valid T mem' other \<and> heap_ok mem'"
proof -
  from validD[OF v] obtain r where r: "regions mem (m_data other) = Some r"
    and len: "m_capacity other \<le> length r" and le: "m_size other \<le> m_capacity other"
    and fit: "m_capacity other * sizeof T < 2 ^ 64"
    and el: "elements mem other = take (m_size other) r"
    and lv: "None \<notin> set (take (m_size other) r)"
    by blast
  let ?n = "m_size other"
  let ?v0 = "\<lparr>this_addr = a, m_size = 0, m_capacity = N, m_data = Inline a\<rparr>"
  let ?mem0 = "new_object N a mem"
  have n: "?n \<le> length r" using le len by simp
  have live: "\<forall>k. 0 \<le> k \<and> k < ?n \<longrightarrow> (\<exists>x. r ! k = Some x \<and> \<not> copy_throws T x)"
    using take_live[OF lv n] nothrow el by auto
  have r0: "regions ?mem0 (m_data other) = Some r"
    using r fresh by (simp add: new_object_def)
  have ok0: "heap_ok ?mem0"
    using ok by (simp add: heap_ok_def new_object_def)
  have nb0: "next_block ?mem0 = next_block mem"
    by (simp add: new_object_def)
  have fitn: "?n * sizeof T < 2 ^ 64"
  proof -
    have "?n * sizeof T \<le> m_capacity other * sizeof T"
      using le by (rule mult_le_mono1)
    then show ?thesis using fit by (rule le_less_trans)
  qed
  show ?thesis
  proof (cases "N < ?n")
    case False
    let ?d = "?v0\<lparr>m_size := ?n\<rparr>"
    let ?t = "take ?n r @ replicate (N - ?n) None"
    let ?mem' = "?mem0\<lparr>regions := (regions ?mem0)(Inline a \<mapsto> ?t)\<rparr>"
    have "copy_push_loop T N other 0 ?v0 ?mem0 =
      Returns (?v0\<lparr>m_size := ?n\<rparr>,
        ?mem0\<lparr>regions := (regions ?mem0)(m_data ?v0 \<mapsto>
          take 0 (replicate N None) @ take (?n - 0) (drop 0 r) @ drop ?n (replicate N None))\<rparr>)"
      using r0 fresh False n live by (intro copy_push_loop_ok) (auto simp: new_object_def)
    then have loop: "copy_push_loop T N other 0 ?v0 ?mem0 = Returns (?d, ?mem')"
      by simp
    have run: "copy_ctor T N a other mem = Returns (?d, ?mem')"
      using False loop by (simp add: copy_ctor_def default_ctor_def del: copy_push_loop.simps)
    have el': "elements ?mem' ?d = take ?n r"
      using elements_take[of ?mem' ?d ?t] False n by simp
    have ro: "regions ?mem' (m_data other) = Some r"
      using r0 fresh by simp
    have vd: "valid T ?mem' ?d"
      using False fitN lv n by (intro validI[where r = ?t]) auto
    have vo: "valid T ?mem' other"
      using ro len le fit lv by (rule validI)
    have ho: "heap_ok ?mem'"
      using ok0 by (rule heap_ok_upd) (simp add: new_object_def)
    show ?thesis
      using False run el el' ro r vd vo ho fresh nb0 by (simp add: max_def)
  next
    case True
    let ?tmp = "Block (next_block mem)"
    let ?v1 = "?v0\<lparr>m_data := ?tmp, m_capacity := ?n\<rparr>"
    let ?mem1 = "?mem0\<lparr>regions := (regions ?mem0)
              (?tmp \<mapsto> replicate ?n None, Inline a \<mapsto> replicate N None),
           next_block := Suc (next_block mem)\<rparr>"
    have ne: "m_data other \<noteq> ?tmp"
      using r heap_ok_fresh[OF ok] by auto
    have "reserve T N ?v0 ?n ?mem0 =
      Returns (?v0\<lparr>m_data := Block (next_block ?mem0), m_capacity := ?n\<rparr>,
        ?mem0\<lparr>regions := (regions ?mem0)
              (Block (next_block ?mem0) \<mapsto> take (m_size ?v0) (replicate N None) @
                  replicate (?n - m_size ?v0) None,
               m_data ?v0 \<mapsto> replicate (m_size ?v0) None @ drop (m_size ?v0) (replicate N None)),
           next_block := Suc (next_block ?mem0)\<rparr>)"
      using ok0 True fitn pos by (intro reserve_grows) (auto simp: new_object_def)
    then have res: "reserve T N ?v0 ?n ?mem0 = Returns (?v1, ?mem1)"
      by (simp add: nb0)
    let ?d = "?v1\<lparr>m_size := ?n\<rparr>"
    let ?t = "take ?n r"
    let ?mem' = "?mem1\<lparr>regions := (regions ?mem1)(?tmp \<mapsto> ?t)\<rparr>"
    have r1: "regions ?mem1 (m_data other) = Some r"
      using r0 fresh ne by simp
    have "copy_push_loop T N other 0 ?v1 ?mem1 =
      Returns (?v1\<lparr>m_size := ?n\<rparr>,
        ?mem1\<lparr>regions := (regions ?mem1)(m_data ?v1 \<mapsto>
          take 0 (replicate ?n None) @ take (?n - 0) (drop 0 r) @ drop ?n (replicate ?n None))\<rparr>)"
      using r1 ne n live by (intro copy_push_loop_ok) auto
    then have loop: "copy_push_loop T N other 0 ?v1 ?mem1 = Returns (?d, ?mem')"
      by simp
    have run: "copy_ctor T N a other mem = Returns (?d, ?mem')"
      using True loop res
      by (simp add: copy_ctor_def default_ctor_def del: copy_push_loop.simps)
    have el': "elements ?mem' ?d = take ?n r"
      using elements_take[of ?mem' ?d ?t] n by simp
    have ro: "regions ?mem' (m_data other) = Some r"
      using r0 fresh ne by simp
    have vd: "valid T ?mem' ?d"
      using n fitn lv by (intro validI[where r = ?t]) auto
    have vo: "valid T ?mem' other"
      using ro len le fit lv by (rule validI)
    have ho: "heap_ok ?mem'"
      using ok r by (auto simp: heap_ok_def new_object_def)
    show ?thesis
      using True run el el' ro r vd vo ho ne by (simp add: max_def)
  qed
qed

section \<open>What a call can change\<close>

lemma header_step_refl: "header_step v v"
  by (simp add: header_step_def)

lemma header_step_trans: "header_step v v1 \<Longrightarrow> header_step v1 v2 \<Longrightarrow> header_step v v2"
  by (auto simp: header_step_def)

lemma header_step_size: "header_step v (v\<lparr>m_size := n\<rparr>)"
  by (simp add: header_step_def)

lemma header_step_inline:
  assumes "header_step v v'" and "m_data v = buffer v \<longrightarrow> m_capacity v = c \<and> c \<le> N"
  shows "m_data v' = buffer v' \<longrightarrow> m_capacity v' = c \<and> c \<le> N"
  using assms by (auto simp: header_step_def buffer_def)

lemma reserve_adopt_result:
  assumes "reserve_adopt N v tmp c i mem = Returns (v', mem') \<or>
           reserve_adopt N v tmp c i mem = Throws (v', mem')"
  shows "this_addr v' = this_addr v \<and> m_data v' = tmp"
  using assms
  by (auto simp: reserve_adopt_def clear_def simp del: destroy_loop.simps
      split: option.splits if_splits)

lemma reserve_header:
  assumes "reserve T N v c mem = Returns (v', mem') \<or> reserve T N v c mem = Throws (v', mem')"
  shows "header_step v v'"
proof (cases "c \<le> m_capacity v")
  case True
  with assms show ?thesis by (auto simp: reserve_def header_step_def)
next
  case False
  let ?tmp = "Block (next_block mem)"
  obtain mem1 where new: "operator_new T (size_mul c (sizeof T)) mem = (?tmp, mem1)"
    by (simp add: operator_new_def)
  show ?thesis
  proof (cases "transfer_loop T (m_data v) ?tmp 0 (m_size v) mem1")
    case Undefined
    with assms False new show ?thesis
      by (simp add: reserve_def del: transfer_loop.simps)
  next
    case (Returns s)
    obtain i mem2 where s: "s = (i, mem2)" by (cases s)
    from assms False new Returns s
    have "reserve_adopt N v ?tmp c i mem2 = Returns (v', mem') \<or>
          reserve_adopt N v ?tmp c i mem2 = Throws (v', mem')"
      by (simp add: reserve_def del: transfer_loop.simps)
    from reserve_adopt_result[OF this] show ?thesis
      by (auto simp: header_step_def)
  next
    case (Throws s)
    obtain i mem2 where s: "s = (i, mem2)" by (cases s)
    show ?thesis
    proof (cases "i > 0")
      case True
      with assms False new Throws s have "v' = v"
        by (auto simp: reserve_def simp del: transfer_loop.simps split: option.splits)
      then show ?thesis by (simp add: header_step_refl)
    next
      case z: False
      with assms False new Throws s
      have "reserve_adopt N v ?tmp c i mem2 = Returns (v', mem') \<or>
            reserve_adopt N v ?tmp c i mem2 = Throws (v', mem')"
        by (simp add: reserve_def del: transfer_loop.simps)
      from reserve_adopt_result[OF this] show ?thesis
        by (auto simp: header_step_def)
    qed
  qed
qed

lemma emplace_back_header:
  assumes "emplace_back T N v arg mem = Returns (v', mem') \<or>
           emplace_back T N v arg mem = Throws (v', mem')"
  shows "header_step v v'"
proof (cases "m_size v \<ge> m_capacity v")
  case False
  with assms show ?thesis
    by (auto simp: emplace_back_def header_step_def split: option.splits)
next
  case True
  let ?c = "if m_capacity v = 0 then 1 else size_mul 2 (m_capacity v)"
  show ?thesis
  proof (cases "reserve T N v ?c mem")
    case Undefined
    with assms True show ?thesis by (simp add: emplace_back_def)
  next
    case (Throws s)
    with assms True have "reserve T N v ?c mem = Throws (v', mem')"
      by (simp add: emplace_back_def)
    then show ?thesis using reserve_header by blast
  next
    case (Returns s)
    obtain v1 mem1 where s: "s = (v1, mem1)" by (cases s)
    have h1: "header_step v v1"
      using Returns s reserve_header by blast
    from assms True Returns s have "v' = v1 \<or> v' = v1\<lparr>m_size := Suc (m_size v1)\<rparr>"
      by (auto simp: emplace_back_def split: option.splits)
    then have "header_step v1 v'"
      using header_step_refl header_step_size by auto
    with h1 show ?thesis by (rule header_step_trans)
  qed
qed

lemma clear_header: "clear v mem = Some (v', mem') \<Longrightarrow> header_step v v'"
  by (auto simp: clear_def header_step_def simp del: destroy_loop.simps split: option.splits)

lemma construct_at_apart:
  assumes "construct_at p i x mem = Some mem'" and "heap_ok mem" and "regions mem q \<noteq> None"
    and "p \<noteq> q"
  shows "heap_ok mem' \<and> regions mem' q = regions mem q \<and> next_block mem' = next_block mem"
  using assms by (auto simp: construct_at_def heap_ok_def split: option.splits if_splits)

lemma destroy_at_apart:
  assumes "destroy_at p i mem = Some mem'" and "heap_ok mem" and "regions mem q \<noteq> None"
    and "p \<noteq> q"
  shows "heap_ok mem' \<and> regions mem' q = regions mem q \<and> next_block mem' = next_block mem"
  using assms by (auto simp: destroy_at_def heap_ok_def split: option.splits if_splits)

lemma operator_delete_apart:
  assumes "operator_delete p mem = Some mem'" and "heap_ok mem" and "regions mem q \<noteq> None"
    and "p \<noteq> q"
  shows "heap_ok mem' \<and> regions mem' q = regions mem q \<and> next_block mem' = next_block mem"
  using assms by (auto simp: operator_delete_def heap_ok_def split: option.splits pointer.splits)

lemma operator_new_apart:
  assumes "operator_new T bytes mem = (tmp, mem')" and "heap_ok mem" and "regions mem q \<noteq> None"
  shows "heap_ok mem' \<and> regions mem' q = regions mem q \<and> tmp \<noteq> q \<and>
         tmp = Block (next_block mem) \<and> next_block mem' = Suc (next_block mem)"
  using assms by (auto simp: operator_new_def heap_ok_def)

lemma destroy_loop_apart:
  assumes "destroy_loop p i n mem = Some mem'" and "heap_ok mem" and "regions mem q \<noteq> None"
    and "p \<noteq> q"
  shows "heap_ok mem' \<and> regions mem' q = regions mem q \<and> next_block mem' = next_block mem"
  using assms
proof (induction p i n mem rule: destroy_loop.induct)
  case (1 p i n mem)
  show ?case
  proof (cases "i < n")
    case False
    with "1.prems" show ?thesis
      by (simp add: destroy_loop.simps[of p i n mem] del: destroy_loop.simps)
  next
    case True
    with "1.prems"(1) obtain mem1 where d: "destroy_at p i mem = Some mem1"
      and rest: "destroy_loop p (Suc i) n mem1 = Some mem'"
      by (simp add: destroy_loop.simps[of p i n mem] del: destroy_loop.simps split: option.splits)
    from destroy_at_apart[OF d "1.prems"(2,3,4)]
    have a: "heap_ok mem1" "regions mem1 q = regions mem q" "next_block mem1 = next_block mem"
      by simp_all
    from "1.IH"[OF True d rest a(1) _ "1.prems"(4)] a "1.prems"(3)
    show ?thesis by simp
  qed
qed

lemma transfer_loop_apart:
  assumes "transfer_loop T src tmp i n mem = Returns (j, mem') \<or>
           transfer_loop T src tmp i n mem = Throws (j, mem')"
    and "heap_ok mem" and "regions mem q \<noteq> None" and "tmp \<noteq> q"
  shows "heap_ok mem' \<and> regions mem' q = regions mem q \<and> next_block mem' = next_block mem"
  using assms
proof (induction T src tmp i n mem rule: transfer_loop.induct)
  case (1 T src tmp i n mem)
  show ?case
  proof (cases "i < n")
    case False
    with "1.prems" show ?thesis
      by (simp add: transfer_loop.simps[of T src tmp i n mem] del: transfer_loop.simps)
  next
    case True
    note i = True
    from "1.prems"(1) i obtain x where x: "read_at mem src i = Some x"
      by (cases "read_at mem src i")
         (simp_all add: transfer_loop.simps[of T src tmp i n mem] del: transfer_loop.simps)
    show ?thesis
    proof (cases "move_if_noexcept_construct T x")
      case None
      with "1.prems" i x show ?thesis
        by (simp add: transfer_loop.simps[of T src tmp i n mem] del: transfer_loop.simps)
    next
      case (Some y)
      with "1.prems"(1) i x obtain mem1 where c: "construct_at tmp i y mem = Some mem1"
        and rest: "transfer_loop T src tmp (Suc i) n mem1 = Returns (j, mem') \<or>
                   transfer_loop T src tmp (Suc i) n mem1 = Throws (j, mem')"
        by (cases "construct_at tmp i y mem")
           (simp_all add: transfer_loop.simps[of T src tmp i n mem] del: transfer_loop.simps)
      from construct_at_apart[OF c "1.prems"(2,3,4)]
      have a: "heap_ok mem1" "regions mem1 q = regions mem q" "next_block mem1 = next_block mem"
        by simp_all
      from "1.IH"[OF i x Some c rest a(1) _ "1.prems"(4)] a "1.prems"(3)
      show ?thesis by simp
    qed
  qed
qed

lemma clear_apart:
  assumes "clear v mem = Some (v', mem')" and "heap_ok mem" and "regions mem q \<noteq> None"
    and "m_data v \<noteq> q"
  shows "heap_ok mem' \<and> regions mem' q = regions mem q \<and> next_block mem' = next_block mem \<and>
         v' = v\<lparr>m_size := 0\<rparr>"
proof -
  from assms(1) obtain d: "destroy_loop (m_data v) 0 (m_size v) mem = Some mem'"
    and v': "v' = v\<lparr>m_size := 0\<rparr>"
    by (auto simp: clear_def simp del: destroy_loop.simps split: option.splits)
  from destroy_loop_apart[OF d assms(2,3,4)] v' show ?thesis by simp
qed

lemma reserve_adopt_apart:
  assumes "reserve_adopt N v tmp c i mem = Returns (v', mem') \<or>
           reserve_adopt N v tmp c i mem = Throws (v', mem')"
    and "heap_ok mem" and "regions mem q \<noteq> None" and "m_data v \<noteq> q" and "tmp \<noteq> q"
  shows "apart q v' mem' \<and> regions mem' q = regions mem q"
proof (cases "clear v mem")
  case None
  with assms(1) show ?thesis by (simp add: reserve_adopt_def)
next
  case (Some s)
  obtain v1 mem1 where s: "s = (v1, mem1)" by (cases s)
  from clear_apart[OF Some[unfolded s] assms(2,3,4)]
  have a: "heap_ok mem1" "regions mem1 q = regions mem q" "v1 = v\<lparr>m_size := 0\<rparr>"
    by simp_all
  have u: "uses_buffer N v1" using a(3) by (simp add: uses_buffer_def)
  from assms(1) Some s u have "v' = v1\<lparr>m_data := tmp, m_capacity := c, m_size := i\<rparr>" "mem' = mem1"
    by (auto simp: reserve_adopt_def)
  with a assms(3,5) show ?thesis by (simp add: apart_def)
qed

lemma reserve_apart:
  assumes "reserve T N v c mem = Returns (v', mem') \<or> reserve T N v c mem = Throws (v', mem')"
    and "apart q v mem"
  shows "apart q v' mem' \<and> regions mem' q = regions mem q"
proof (cases "c \<le> m_capacity v")
  case True
  with assms show ?thesis by (auto simp: reserve_def)
next
  case False
  from assms(2) have a0: "heap_ok mem" "regions mem q \<noteq> None" "m_data v \<noteq> q"
    by (simp_all add: apart_def)
  let ?tmp = "Block (next_block mem)"
  obtain mem1 where new: "operator_new T (size_mul c (sizeof T)) mem = (?tmp, mem1)"
    by (simp add: operator_new_def)
  from operator_new_apart[OF new a0(1,2)]
  have a1: "heap_ok mem1" "regions mem1 q = regions mem q" "?tmp \<noteq> q"
    by simp_all
  have q1: "regions mem1 q \<noteq> None" using a1(2) a0(2) by simp
  show ?thesis
  proof (cases "transfer_loop T (m_data v) ?tmp 0 (m_size v) mem1")
    case Undefined
    with assms(1) False new show ?thesis
      by (simp add: reserve_def del: transfer_loop.simps)
  next
    case (Returns s)
    obtain i mem2 where s: "s = (i, mem2)" by (cases s)
    from transfer_loop_apart[OF disjI1[OF Returns[unfolded s]] a1(1) q1 a1(3)]
    have a2: "heap_ok mem2" "regions mem2 q = regions mem1 q" by simp_all
    from assms(1) False new Returns s
    have "reserve_adopt N v ?tmp c i mem2 = Returns (v', mem') \<or>
          reserve_adopt N v ?tmp c i mem2 = Throws (v', mem')"
      by (simp add: reserve_def del: transfer_loop.simps)
    from reserve_adopt_apart[OF this a2(1) _ a0(3) a1(3)] a2(2) q1 a1(2)
    show ?thesis by simp
  next
    case (Throws s)
    obtain i mem2 where s: "s = (i, mem2)" by (cases s)
    from transfer_loop_apart[OF disjI2[OF Throws[unfolded s]] a1(1) q1 a1(3)]
    have a2: "heap_ok mem2" "regions mem2 q = regions mem1 q" by simp_all
    have q2: "regions mem2 q \<noteq> None" using a2(2) q1 by simp
    show ?thesis
    proof (cases "i > 0")
      case True
      with assms(1) False new Throws s obtain mem3 where
        d: "destroy_at ?tmp (i - 1) mem2 = Some mem3" and
        o: "operator_delete ?tmp mem3 = Some mem'" and v': "v' = v"
        by (auto simp: reserve_def simp del: transfer_loop.simps split: option.splits)
      from destroy_at_apart[OF d a2(1) q2 a1(3)]
      have a3: "heap_ok mem3" "regions mem3 q = regions mem2 q" by simp_all
      have q3: "regions mem3 q \<noteq> None" using a3(2) q2 by simp
      from operator_delete_apart[OF o a3(1) q3 a1(3)] a3(2) a2(2) a1(2) a0 v'
      show ?thesis by (simp add: apart_def)
    next
      case z: False
      with assms(1) False new Throws s
      have "reserve_adopt N v ?tmp c i mem2 = Returns (v', mem') \<or>
            reserve_adopt N v ?tmp c i mem2 = Throws (v', mem')"
        by (simp add: reserve_def del: transfer_loop.simps)
      from reserve_adopt_apart[OF this a2(1) q2 a0(3) a1(3)] a2(2) a1(2)
      show ?thesis by simp
    qed
  qed
qed

lemma emplace_back_apart:
  assumes "emplace_back T N v arg mem = Returns (v', mem') \<or>
           emplace_back T N v arg mem = Throws (v', mem')"
    and "apart q v mem"
  shows "apart q v' mem' \<and> regions mem' q = regions mem q"
proof -
  let ?c = "if m_capacity v = 0 then 1 else size_mul 2 (m_capacity v)"
  let ?grow = "if m_size v \<ge> m_capacity v then reserve T N v ?c mem else Returns (v, mem)"
  show ?thesis
  proof (cases ?grow)
    case Undefined
    with assms(1) show ?thesis by (simp add: emplace_back_def)
  next
    case (Throws s)
    with assms(1) have "reserve T N v ?c mem = Throws (v', mem')"
      by (simp add: emplace_back_def split: if_splits)
    with reserve_apart assms(2) show ?thesis by blast
  next
    case (Returns s)
    obtain v1 mem1 where s: "s = (v1, mem1)" by (cases s)
    have a1: "apart q v1 mem1 \<and> regions mem1 q = regions mem q"
    proof (cases "m_size v \<ge> m_capacity v")
      case True
      with Returns s have "reserve T N v ?c mem = Returns (v1, mem1)" by simp
      with reserve_apart assms(2) show ?thesis by blast
    next
      case False
      with Returns s assms(2) show ?thesis by simp
    qed
    show ?thesis
    proof (cases arg)
      case None
      with assms(1) Returns s have "v' = v1" "mem' = mem1"
        by (simp_all add: emplace_back_def)
      with a1 show ?thesis by simp
    next
      case (Some x)
      with assms(1) Returns s have c: "construct_at (m_data v1) (m_size v1) x mem1 = Some mem'"
        and v': "v' = v1\<lparr>m_size := Suc (m_size v1)\<rparr>"
        by (auto simp: emplace_back_def split: option.splits)
      from a1 have "apart q v1 mem1" by (rule conjunct1)
      then have b: "heap_ok mem1" "regions mem1 q \<noteq> None" "m_data v1 \<noteq> q"
        by (simp_all add: apart_def)
      from construct_at_apart[OF c b] a1 v' b show ?thesis
        by (auto simp: apart_def)
    qed
  qed
qed

lemma put_apart:
  assumes "put mem v pos x = Some mem'" and "apart q v mem"
  shows "apart q v mem' \<and> regions mem' q = regions mem q"
proof -
  from assms(2) have a: "heap_ok mem" "regions mem q \<noteq> None" "m_data v \<noteq> q"
    by (simp_all add: apart_def)
  from assms(1) obtain r where r: "regions mem (m_data v) = Some r"
    and m: "mem' = mem\<lparr>regions := (regions mem)(m_data v \<mapsto> r[pos := Some x])\<rparr>"
    by (auto simp: put_def split: option.splits if_splits)
  have "heap_ok mem'"
    unfolding m using a(1) by (rule heap_ok_upd) (simp add: r)
  then show ?thesis
    using a m by (simp add: apart_def)
qed

lemma clear_apart_inv:
  assumes "clear v mem = Some (v', mem')" and "apart q v mem"
  shows "apart q v' mem' \<and> regions mem' q = regions mem q"
proof -
  from assms(2) have a: "heap_ok mem" "regions mem q \<noteq> None" "m_data v \<noteq> q"
    by (simp_all add: apart_def)
  from clear_apart[OF assms(1) a] a show ?thesis by (simp add: apart_def)
qed

lemma push_back_props:
  assumes "push_back T N v x mem = Returns (v', mem') \<or> push_back T N v x mem = Throws (v', mem')"
  shows "header_step v v'"
    and "apart q v mem \<Longrightarrow> apart q v' mem' \<and> regions mem' q = regions mem q"
  using assms emplace_back_header[of T N v "copy_construct T x" mem v' mem']
    emplace_back_apart[of T N v "copy_construct T x" mem v' mem' q]
  by (simp_all add: push_back_def)

lemma resize_grow_loop_props:
  assumes "resize_grow_loop T N i n val v mem = Returns (v', mem') \<or>
           resize_grow_loop T N i n val v mem = Throws (v', mem')"
  shows "header_step v v' \<and>
         (apart q v mem \<longrightarrow> apart q v' mem' \<and> regions mem' q = regions mem q)"
  using assms
proof (induction T N i n val v mem rule: resize_grow_loop.induct)
  case (1 T N i n val v mem)
  show ?case
  proof (cases "i < n")
    case False
    with "1.prems" show ?thesis
      by (simp add: resize_grow_loop.simps[of T N i n val v mem] header_step_refl
          del: resize_grow_loop.simps)
  next
    case True
    show ?thesis
    proof (cases "push_back T N v val mem")
      case Undefined
      with "1.prems" True show ?thesis
        by (simp add: resize_grow_loop.simps[of T N i n val v mem] del: resize_grow_loop.simps)
    next
      case (Throws s)
      with "1.prems" True have "push_back T N v val mem = Throws (v', mem')"
        by (simp add: resize_grow_loop.simps[of T N i n val v mem] del: resize_grow_loop.simps)
      then show ?thesis
        using push_back_props(1)[of T N v val mem v' mem']
          push_back_props(2)[of T N v val mem v' mem' q] by simp
    next
      case (Returns s)
      obtain v1 mem1 where s: "s = (v1, mem1)" by (cases s)
      from "1.prems" True Returns s
      have rest: "resize_grow_loop T N (Suc i) n val v1 mem1 = Returns (v', mem') \<or>
                  resize_grow_loop T N (Suc i) n val v1 mem1 = Throws (v', mem')"
        by (simp add: resize_grow_loop.simps[of T N i n val v mem] del: resize_grow_loop.simps)
      from "1.IH"[OF True Returns s[symmetric] rest]
      have ih: "header_step v1 v'"
        "apart q v1 mem1 \<longrightarrow> apart q v' mem' \<and> regions mem' q = regions mem1 q"
        by simp_all
      from Returns s have pb: "push_back T N v val mem = Returns (v1, mem1)" by simp
      from push_back_props(1)[of T N v val mem v1 mem1]
        push_back_props(2)[of T N v val mem v1 mem1 q] pb
      have st: "header_step v v1"
        "apart q v mem \<longrightarrow> apart q v1 mem1 \<and> regions mem1 q = regions mem q"
        by simp_all
      from st(1) ih(1) have "header_step v v'" by (rule header_step_trans)
      with st(2) ih(2) show ?thesis by auto
    qed
  qed
qed

lemma resize_shrink_loop_props:
  assumes "resize_shrink_loop v n mem = Some (v', mem')"
  shows "header_step v v' \<and>
         (apart q v mem \<longrightarrow> apart q v' mem' \<and> regions mem' q = regions mem q)"
  using assms
proof (induction v n mem rule: resize_shrink_loop.induct)
  case (1 v n mem)
  show ?case
  proof (cases "m_size v > n")
    case False
    with "1.prems" show ?thesis
      by (simp add: resize_shrink_loop.simps[of v n mem] header_step_refl
          del: resize_shrink_loop.simps)
  next
    case True
    let ?v1 = "v\<lparr>m_size := m_size v - 1\<rparr>"
    from "1.prems" True obtain mem1 where d: "destroy_at (m_data v) (m_size v - 1) mem = Some mem1"
      and rest: "resize_shrink_loop ?v1 n mem1 = Some (v', mem')"
      by (simp add: resize_shrink_loop.simps[of v n mem] del: resize_shrink_loop.simps
          split: option.splits)
    from "1.IH"[OF True d rest]
    have ih: "header_step ?v1 v'"
      "apart q ?v1 mem1 \<longrightarrow> apart q v' mem' \<and> regions mem' q = regions mem1 q"
      by simp_all
    have h: "header_step v v'"
      using header_step_size ih(1) by (rule header_step_trans)
    have "apart q v' mem' \<and> regions mem' q = regions mem q" if a: "apart q v mem"
    proof -
      from a have b: "heap_ok mem" "regions mem q \<noteq> None" "m_data v \<noteq> q"
        by (simp_all add: apart_def)
      from destroy_at_apart[OF d b]
      have c: "heap_ok mem1" "regions mem1 q = regions mem q" by simp_all
      with b have "apart q ?v1 mem1" by (simp add: apart_def)
      with ih(2) c(2) show ?thesis by simp
    qed
    with h show ?thesis by simp
  qed
qed

lemma resize_props:
  assumes "resize T N v n val mem = Returns (v', mem') \<or>
           resize T N v n val mem = Throws (v', mem')"
  shows "header_step v v' \<and>
         (apart q v mem \<longrightarrow> apart q v' mem' \<and> regions mem' q = regions mem q)"
proof (cases "n = m_size v")
  case True
  with assms show ?thesis by (auto simp: resize_def header_step_refl)
next
  case ne: False
  show ?thesis
  proof (cases "n > m_size v")
    case False
    with assms ne have "resize_shrink_loop v n mem = Some (v', mem')"
      by (auto simp: resize_def simp del: resize_shrink_loop.simps split: option.splits)
    then show ?thesis by (rule resize_shrink_loop_props)
  next
    case True
    show ?thesis
    proof (cases "reserve T N v n mem")
      case Undefined
      with assms ne True show ?thesis by (simp add: resize_def)
    next
      case (Throws s)
      with assms ne True have r: "reserve T N v n mem = Throws (v', mem')"
        by (simp add: resize_def)
      then show ?thesis
        using reserve_header[of T N v n mem v' mem'] reserve_apart[of T N v n mem v' mem' q]
        by simp
    next
      case (Returns s)
      obtain v1 mem1 where s: "s = (v1, mem1)" by (cases s)
      from Returns s have r: "reserve T N v n mem = Returns (v1, mem1)" by simp
      from r have st: "header_step v v1"
        "apart q v mem \<longrightarrow> apart q v1 mem1 \<and> regions mem1 q = regions mem q"
        using reserve_header[of T N v n mem v1 mem1] reserve_apart[of T N v n mem v1 mem1 q]
        by simp_all
      from assms ne True r
      have "resize_grow_loop T N (m_size v1) n val v1 mem1 = Returns (v', mem') \<or>
            resize_grow_loop T N (m_size v1) n val v1 mem1 = Throws (v', mem')"
        by (simp add: resize_def del: resize_grow_loop.simps)
      from resize_grow_loop_props[OF this, of q]
      have lp: "header_step v1 v'"
        "apart q v1 mem1 \<longrightarrow> apart q v' mem' \<and> regions mem' q = regions mem1 q"
        by simp_all
      from st(1) lp(1) have "header_step v v'" by (rule header_step_trans)
      with st(2) lp(2) show ?thesis by auto
    qed
  qed
qed

lemma copy_push_loop_header:
  assumes "copy_push_loop T N other i v mem = Returns (v', mem')"
  shows "header_step v v'"
  using assms
proof (induction T N other i v mem rule: copy_push_loop.induct)
  case (1 T N other i v mem)
  show ?case
  proof (cases "i < m_size other")
    case False
    with "1.prems" show ?thesis
      by (simp add: copy_push_loop.simps[of T N other i v mem] header_step_refl
          del: copy_push_loop.simps)
  next
    case True
    from "1.prems" True obtain x where x: "at mem other i = Some x"
      by (cases "at mem other i")
         (simp_all add: copy_push_loop.simps[of T N other i v mem] del: copy_push_loop.simps)
    from "1.prems" True x obtain v1 mem1 where pb: "push_back T N v x mem = Returns (v1, mem1)"
      and rest: "copy_push_loop T N other (Suc i) v1 mem1 = Returns (v', mem')"
      by (cases "push_back T N v x mem")
         (auto simp add: copy_push_loop.simps[of T N other i v mem]
           simp del: copy_push_loop.simps)
    from "1.IH"[OF True x pb refl rest] have "header_step v1 v'" .
    with push_back_props(1)[of T N v x mem v1 mem1] pb show ?thesis
      using header_step_trans by blast
  qed
qed

lemma copy_ctor_header:
  assumes "copy_ctor T N a other mem = Returns (d, mem')"
  shows "header_step \<lparr>this_addr = a, m_size = 0, m_capacity = N, m_data = Inline a\<rparr> d"
proof -
  let ?v0 = "\<lparr>this_addr = a, m_size = 0, m_capacity = N, m_data = Inline a\<rparr>"
  let ?mem0 = "new_object N a mem"
  let ?grow = "if m_size other > m_capacity ?v0 then reserve T N ?v0 (m_size other) ?mem0
               else Returns (?v0, ?mem0)"
  from assms obtain v1 mem1 where g: "?grow = Returns (v1, mem1)"
    and l: "copy_push_loop T N other 0 v1 mem1 = Returns (d, mem')"
    by (cases ?grow)
       (auto simp: copy_ctor_def default_ctor_def simp del: copy_push_loop.simps
         split: outcome.splits option.splits)
  have "header_step ?v0 v1"
  proof (cases "m_size other > m_capacity ?v0")
    case True
    with g have "reserve T N ?v0 (m_size other) ?mem0 = Returns (v1, mem1)"
      by (simp del: transfer_loop.simps)
    then show ?thesis using reserve_header by blast
  next
    case False
    with g show ?thesis by (simp add: header_step_refl)
  qed
  moreover have "header_step v1 d"
    using l by (rule copy_push_loop_header)
  ultimately show ?thesis by (rule header_step_trans)
qed

lemma initializer_list_ctor_header:
  assumes "initializer_list_ctor T N a init mem = Returns (v, mem')"
  shows "this_addr v = a \<and> m_capacity v = length init \<and>
         ((m_data v = Inline a \<and> length init \<le> N) \<or> (\<exists>b. m_data v = Block b))"
  using assms
  by (auto simp: initializer_list_ctor_def Let_def operator_new_def uninitialized_copy_def
      split: if_splits outcome.splits prod.splits option.splits)

lemma reachable_inline:
  assumes "reachable T N c s"
  shows "m_data (fst s) = buffer (fst s) \<longrightarrow> m_capacity (fst s) = c \<and> c \<le> N"
  using assms
proof (induction rule: reachable.induct)
  case (by_default a mem s)
  then show ?case by (auto simp: default_ctor_def)
next
  case (by_literal a init mem s)
  from initializer_list_ctor_header[of T N a init mem "fst s" "snd s"] by_literal
  show ?case by (auto simp: buffer_def)
next
  case (by_copy a other mem s)
  from copy_ctor_header[of T N a other mem "fst s" "snd s"] by_copy
  show ?case by (auto simp: header_step_def buffer_def)
next
  case (by_emplace_back c v mem arg s)
  from emplace_back_header[of T N v arg mem "fst s" "snd s"] by_emplace_back
  show ?case using header_step_inline by fastforce
next
  case (by_emplace_back_throw c v mem arg s)
  from emplace_back_header[of T N v arg mem "fst s" "snd s"] by_emplace_back_throw
  show ?case using header_step_inline by fastforce
next
  case (by_reserve c v mem capacity s)
  from reserve_header[of T N v capacity mem "fst s" "snd s"] by_reserve
  show ?case using header_step_inline by fastforce
next
  case (by_reserve_throw c v mem capacity s)
  from reserve_header[of T N v capacity mem "fst s" "snd s"] by_reserve_throw
  show ?case using header_step_inline by fastforce
next
  case (by_clear c v mem s)
  from clear_header[of v mem "fst s" "snd s"] by_clear
  show ?case using header_step_inline by fastforce
next
  case (by_resize c v mem new_size val s)
  from resize_props[of T N v new_size val mem "fst s" "snd s"] by_resize
  show ?case using header_step_inline by fastforce
next
  case (by_resize_throw c v mem new_size val s)
  from resize_props[of T N v new_size val mem "fst s" "snd s"] by_resize_throw
  show ?case using header_step_inline by fastforce
next
  case (by_other_code c v mem mem')
  then show ?case by simp
qed

lemma literal_vector_reachable: "reachable plain_T 8 3 (literal_vector, empty_memory)"
proof -
  have "\<exists>mem'. initializer_list_ctor plain_T 8 0 [10, 20, 30] empty_memory =
      Returns (literal_vector, mem')"
    by (simp add: prim_defs op_defs fixture_defs literal_vector_def)
  then obtain mem' where
    "initializer_list_ctor plain_T 8 0 [10, 20, 30] empty_memory = Returns (literal_vector, mem')"
    by blast
  then have "reachable plain_T 8 (length [10, 20, 30::nat]) (literal_vector, mem')"
    by (rule reachable.by_literal)
  then have "reachable plain_T 8 3 (literal_vector, mem')"
    by (simp add: numeral_3_eq_3)
  then show ?thesis by (rule reachable.by_other_code)
qed

lemma mutated_apart:
  assumes "mutated T N s s'" and "apart q (fst s) (snd s)"
  shows "apart q (fst s') (snd s') \<and> regions (snd s') q = regions (snd s) q"
  using assms
proof (induction rule: mutated.induct)
  case (not_yet s)
  then show ?case by simp
next
  case (after_put s v mem pos x mem')
  with put_apart[of mem v pos x mem' q] show ?case by simp
next
  case (after_emplace_back s v mem arg s')
  with emplace_back_apart[of T N v arg mem "fst s'" "snd s'" q] show ?case by simp
next
  case (after_emplace_back_throw s v mem arg s')
  with emplace_back_apart[of T N v arg mem "fst s'" "snd s'" q] show ?case by simp
next
  case (after_reserve s v mem capacity s')
  with reserve_apart[of T N v capacity mem "fst s'" "snd s'" q] show ?case by simp
next
  case (after_reserve_throw s v mem capacity s')
  with reserve_apart[of T N v capacity mem "fst s'" "snd s'" q] show ?case by simp
next
  case (after_clear s v mem s')
  with clear_apart_inv[of v mem "fst s'" "snd s'" q] show ?case by simp
next
  case (after_resize s v mem new_size val s')
  with resize_props[of T N v new_size val mem "fst s'" "snd s'" q] show ?case by simp
next
  case (after_resize_throw s v mem new_size val s')
  with resize_props[of T N v new_size val mem "fst s'" "snd s'" q] show ?case by simp
qed

section \<open>The mode test, the deletes, swap and move\<close>

lemma uses_buffer_is_size_test: "uses_buffer N v \<longleftrightarrow> m_size v \<le> N"
  by (simp add: uses_buffer_def)

lemma destroy_at_deleted: "destroy_at p i mem = Some mem' \<Longrightarrow> deleted mem' = deleted mem"
  by (auto simp: destroy_at_def split: option.splits if_splits)

lemma destroy_loop_deleted:
  assumes "destroy_loop p i n mem = Some mem'"
  shows "deleted mem' = deleted mem"
  using assms
proof (induction p i n mem rule: destroy_loop.induct)
  case (1 p i n mem)
  show ?case
  proof (cases "i < n")
    case False
    with "1.prems" show ?thesis
      by (simp add: destroy_loop.simps[of p i n mem] del: destroy_loop.simps)
  next
    case True
    with "1.prems" obtain mem1 where d: "destroy_at p i mem = Some mem1"
      and rest: "destroy_loop p (Suc i) n mem1 = Some mem'"
      by (simp add: destroy_loop.simps[of p i n mem] del: destroy_loop.simps split: option.splits)
    from "1.IH"[OF True d rest] destroy_at_deleted[OF d] show ?thesis by simp
  qed
qed

lemma clear_result:
  assumes "clear v mem = Some (v', mem')"
  shows "v' = v\<lparr>m_size := 0\<rparr> \<and> deleted mem' = deleted mem"
proof -
  from assms obtain d: "destroy_loop (m_data v) 0 (m_size v) mem = Some mem'"
    and v': "v' = v\<lparr>m_size := 0\<rparr>"
    by (auto simp: clear_def simp del: destroy_loop.simps split: option.splits)
  from destroy_loop_deleted[OF d] v' show ?thesis by simp
qed

lemma destructor_never_deletes:
  assumes "destructor N v mem = Some mem'"
  shows "deleted mem' = deleted mem"
proof (cases "clear v mem")
  case None
  with assms show ?thesis by (simp add: destructor_def)
next
  case (Some s)
  obtain v1 mem1 where s: "s = (v1, mem1)" by (cases s)
  from clear_result[OF Some[unfolded s]] have c: "v1 = v\<lparr>m_size := 0\<rparr>" "deleted mem1 = deleted mem"
    by simp_all
  have "uses_buffer N v1" using c(1) by (simp add: uses_buffer_def)
  with assms Some s have "mem' = mem1" by (simp add: destructor_def)
  with c show ?thesis by simp
qed

lemma reserve_adopt_never_deletes:
  assumes "reserve_adopt N v tmp c i mem = Returns (v', mem')"
  shows "deleted mem' = deleted mem"
proof (cases "clear v mem")
  case None
  with assms show ?thesis by (simp add: reserve_adopt_def)
next
  case (Some s)
  obtain v1 mem1 where s: "s = (v1, mem1)" by (cases s)
  from clear_result[OF Some[unfolded s]] have c: "v1 = v\<lparr>m_size := 0\<rparr>" "deleted mem1 = deleted mem"
    by simp_all
  have "uses_buffer N v1" using c(1) by (simp add: uses_buffer_def)
  with assms Some s have "mem' = mem1" by (simp add: reserve_adopt_def)
  with c show ?thesis by simp
qed

lemma swap_exchanges_size_and_capacity:
  assumes "swap N a b mem = Some (a', b', mem')"
  shows "m_size a' = m_size b \<and> m_size b' = m_size a \<and>
         m_capacity a' = m_capacity b \<and> m_capacity b' = m_capacity a"
  using assms by (auto simp: swap_def split: if_splits option.splits)

lemma move_ctor_resets_source:
  assumes "move_ctor N a other mem = Some (v, other', mem')"
  shows "other' = other\<lparr>m_data := buffer other, m_size := 0, m_capacity := N\<rparr> \<and>
         m_size v = m_size other \<and> m_capacity v = m_capacity other"
  using assms by (auto simp: move_ctor_def Let_def split: if_splits option.splits)

section \<open>Appending when the transfer succeeds\<close>

text \<open>
  On a container that satisfies the invariants of the data model, \<^verbatim>\<open>emplace_back\<close> whose
  element construction yields \<open>x\<close> appends \<open>x\<close> at index \<^verbatim>\<open>size\<close> and keeps the earlier
  elements, with capacity \<open>max 1 (2 * capacity)\<close> on a fresh block exactly when the container
  was full, provided that the grown block fits in the address space and that the growth
  step transfers every old element without a throw. \<^verbatim>\<open>push_back\<close> of a value whose copy,
  or whose move, does not throw is this \<^verbatim>\<open>emplace_back\<close>.
\<close>

lemma emplace_back_appends_if_transfer_succeeds:
  assumes v: "valid T mem v" and ok: "heap_ok mem" and pos: "0 < sizeof T"
    and grow: "m_size v = m_capacity v \<Longrightarrow>
        max 1 (2 * m_capacity v) * sizeof T < 2 ^ 64 \<and>
        (\<forall>y. Some y \<in> set (elements mem v) \<longrightarrow> move_if_noexcept_construct T y \<noteq> None)"
  shows "\<exists>v' mem'. emplace_back T N v (Some x) mem = Returns (v', mem') \<and>
      m_size v' = Suc (m_size v) \<and> at mem' v' (m_size v) = Some x \<and>
      elements mem' v' = elements mem v @ [Some x] \<and>
      (if m_size v = m_capacity v
       then m_capacity v' = max 1 (2 * m_capacity v) \<and> m_data v' = Block (next_block mem)
       else m_capacity v' = m_capacity v \<and> m_data v' = m_data v \<and>
            next_block mem' = next_block mem \<and>
            (\<forall>q. q \<noteq> m_data v \<longrightarrow> regions mem' q = regions mem q)) \<and>
      (\<not> copy_throws T x \<longrightarrow> push_back T N v x mem = emplace_back T N v (Some x) mem) \<and>
      (\<not> move_throws T x \<longrightarrow>
         push_back_move T N v x mem = emplace_back T N v (Some x) mem) \<and>
      valid T mem' v' \<and> heap_ok mem'"
proof -
  from validD[OF v] obtain r where r: "regions mem (m_data v) = Some r"
    and len: "m_capacity v \<le> length r" and le: "m_size v \<le> m_capacity v"
    and fit: "m_capacity v * sizeof T < 2 ^ 64"
    and el: "elements mem v = take (m_size v) r" and lv: "None \<notin> set (take (m_size v) r)"
    by blast
  let ?n = "m_size v"
  have pb: "\<not> copy_throws T x \<longrightarrow> push_back T N v x mem = emplace_back T N v (Some x) mem"
    by (simp add: push_back_def copy_construct_def)
  have pm: "\<not> move_throws T x \<longrightarrow>
      push_back_move T N v x mem = emplace_back T N v (Some x) mem"
    by (simp add: push_back_move_def move_construct_def)
  show ?thesis
  proof (cases "m_size v = m_capacity v")
    case False
    then have lt: "?n < m_capacity v" using le by simp
    let ?v = "v\<lparr>m_size := Suc ?n\<rparr>"
    let ?r = "r[?n := Some x]"
    let ?mem = "mem\<lparr>regions := (regions mem)(m_data v \<mapsto> ?r)\<rparr>"
    have run: "emplace_back T N v (Some x) mem = Returns (?v, ?mem)"
      using r lt len by (rule emplace_back_room)
    have tk: "take (Suc ?n) ?r = take ?n r @ [Some x]"
      using lt len by (simp add: take_Suc_conv_app_nth)
    have el': "elements ?mem ?v = take (Suc ?n) ?r"
      using elements_take[of ?mem ?v ?r] lt len by simp
    have at': "at ?mem ?v ?n = Some x"
      using lt len by (simp add: at_def read_at_def)
    have va: "valid T ?mem ?v"
      using lt len fit lv tk by (intro validI[where r = ?r]) auto
    have ho: "heap_ok ?mem"
      using ok r by (intro heap_ok_upd) auto
    show ?thesis
      using False run el el' tk at' va ho pb pm by simp
  next
    case True
    let ?c = "max 1 (2 * m_capacity v)"
    let ?tmp = "Block (next_block mem)"
    let ?t = "(take ?n r @ replicate (?c - ?n) None)[?n := Some x]"
    let ?v = "v\<lparr>m_data := ?tmp, m_capacity := ?c, m_size := Suc ?n\<rparr>"
    let ?mem = "mem\<lparr>regions := (regions mem)
              (?tmp \<mapsto> ?t, m_data v \<mapsto> replicate ?n None @ drop ?n r),
           next_block := Suc (next_block mem)\<rparr>"
    from grow[OF True] have fits: "?c * sizeof T < 2 ^ 64"
      and mv: "\<forall>y. Some y \<in> set (take ?n r) \<longrightarrow> move_if_noexcept_construct T y \<noteq> None"
      using el by auto
    have live: "\<forall>k. k < ?n \<longrightarrow> (\<exists>y. r ! k = Some y \<and> move_if_noexcept_construct T y \<noteq> None)"
      using lv _ mv by (rule transfer_live) (use le len in simp)
    have run: "emplace_back T N v (Some x) mem = Returns (?v, ?mem)"
      using r True len live ok fits pos by (rule emplace_back_full(1))
    have ne: "m_data v \<noteq> ?tmp"
      using r heap_ok_fresh[OF ok] by auto
    have n: "?n \<le> length r" "?n < ?c" using le len True by auto
    have rt: "regions ?mem (m_data ?v) = Some ?t"
      using ne by simp
    have tk: "take (Suc ?n) ?t = take ?n r @ [Some x]"
      using n by (simp add: take_Suc_conv_app_nth)
    have el': "elements ?mem ?v = take (m_size ?v) ?t"
      using rt by (rule elements_take) (use n in simp)
    have at': "at ?mem ?v ?n = Some x"
      using n ne by (simp add: at_def read_at_def)
    have va: "valid T ?mem ?v"
      using rt by (rule validI) (use n fits lv tk in auto)
    have ho: "heap_ok ?mem"
      using ok by (rule heap_ok_grown) (use r in simp)
    show ?thesis
      using True run el el' tk at' va ho pb pm by simp
  qed
qed

text \<open>
  Under the same provisos, a throwing element construction leaves the size and the
  elements as they were before the call; only the capacity may have grown.
\<close>

lemma emplace_back_throw_if_transfer_succeeds:
  assumes v: "valid T mem v" and ok: "heap_ok mem" and pos: "0 < sizeof T"
    and grow: "m_size v = m_capacity v \<Longrightarrow>
        max 1 (2 * m_capacity v) * sizeof T < 2 ^ 64 \<and>
        (\<forall>y. Some y \<in> set (elements mem v) \<longrightarrow> move_if_noexcept_construct T y \<noteq> None)"
  shows "\<exists>v' mem'. emplace_back T N v None mem = Throws (v', mem') \<and>
      m_size v' = m_size v \<and> elements mem' v' = elements mem v \<and>
      (if m_size v = m_capacity v
       then m_capacity v' = max 1 (2 * m_capacity v) \<and> at mem' v' (m_size v) = None
       else v' = v \<and> mem' = mem) \<and>
      valid T mem' v' \<and> heap_ok mem'"
proof -
  from validD[OF v] obtain r where r: "regions mem (m_data v) = Some r"
    and len: "m_capacity v \<le> length r" and le: "m_size v \<le> m_capacity v"
    and fit: "m_capacity v * sizeof T < 2 ^ 64"
    and el: "elements mem v = take (m_size v) r" and lv: "None \<notin> set (take (m_size v) r)"
    by blast
  let ?n = "m_size v"
  show ?thesis
  proof (cases "m_size v = m_capacity v")
    case False
    then have lt: "?n < m_capacity v" using le by simp
    have run: "emplace_back T N v None mem = Throws (v, mem)"
      using r lt len by (rule emplace_back_room)
    show ?thesis
      using False run v ok by simp
  next
    case True
    let ?c = "max 1 (2 * m_capacity v)"
    let ?tmp = "Block (next_block mem)"
    let ?t = "take ?n r @ replicate (?c - ?n) None"
    let ?v = "v\<lparr>m_data := ?tmp, m_capacity := ?c\<rparr>"
    let ?mem = "mem\<lparr>regions := (regions mem)
              (?tmp \<mapsto> ?t, m_data v \<mapsto> replicate ?n None @ drop ?n r),
           next_block := Suc (next_block mem)\<rparr>"
    from grow[OF True] have fits: "?c * sizeof T < 2 ^ 64"
      and mv: "\<forall>y. Some y \<in> set (take ?n r) \<longrightarrow> move_if_noexcept_construct T y \<noteq> None"
      using el by auto
    have live: "\<forall>k. k < ?n \<longrightarrow> (\<exists>y. r ! k = Some y \<and> move_if_noexcept_construct T y \<noteq> None)"
      using lv _ mv by (rule transfer_live) (use le len in simp)
    have run: "emplace_back T N v None mem = Throws (?v, ?mem)"
      using r True len live ok fits pos by (rule emplace_back_full(2))
    have ne: "m_data v \<noteq> ?tmp"
      using r heap_ok_fresh[OF ok] by auto
    have n: "?n \<le> length r" "?n < ?c" using le len True by auto
    have rt: "regions ?mem (m_data ?v) = Some ?t"
      using ne by simp
    have el': "elements ?mem ?v = take (m_size ?v) ?t"
      using rt by (rule elements_take) (use n in simp)
    have at': "at ?mem ?v ?n = None"
      using n ne by (simp add: at_def read_at_def nth_append)
    have va: "valid T ?mem ?v"
      using rt by (rule validI) (use n fits lv in auto)
    have ho: "heap_ok ?mem"
      using ok by (rule heap_ok_grown) (use r in simp)
    show ?thesis
      using True run el el' at' va ho n by simp
  qed
qed

section \<open>The claims\<close>

text \<open>
  C1. The claim: the mode test consulted by the move constructor, \<^verbatim>\<open>swap\<close>, \<^verbatim>\<open>reserve\<close>
  and the destructor is the comparison of \<^verbatim>\<open>m_data\<close> with the address of the inline
  buffer. The code's \<^verbatim>\<open>uses_buffer\<close> compares \<^verbatim>\<open>m_size\<close> with \<open>N\<close> instead: with \<open>N = 4\<close>,
  an empty container after \<^verbatim>\<open>reserve(10)\<close> has \<^verbatim>\<open>m_data\<close> on the heap block, different
  from its buffer, and the mode test still answers that the buffer is in use.
\<close>

theorem uses_buffer_true_on_heap_storage:
  "(case default_ctor 4 0 empty_memory of
      (v, mem) \<Rightarrow>
        (case reserve plain_T 4 v 10 mem of
           Returns (v', mem') \<Rightarrow>
             m_data v' = Block 0 \<and> buffer v' = Inline 0 \<and> m_data v' \<noteq> buffer v' \<and>
             uses_buffer 4 v'
         | Throws s \<Rightarrow> False
         | Undefined \<Rightarrow> False))"
  by (simp add: prim_defs op_defs fixture_defs)

text \<open>
  C2. The claim: a construction failure while \<^verbatim>\<open>reserve\<close> transfers the elements
  propagates and leaves the container as it was. With \<open>N = 4\<close> and the one element 13,
  whose copy throws, \<^verbatim>\<open>reserve(8)\<close> fails at index 0: the handler's loop body is not
  entered, nothing is rethrown, and \<^verbatim>\<open>reserve\<close> returns with the element gone, size 0,
  capacity 8 and the new block adopted.
\<close>

theorem reserve_swallows_failure_at_first_element:
  "(case default_ctor 4 0 empty_memory of
      (v, mem) \<Rightarrow>
        (case emplace_back fragile_T 4 v (Some 13) mem of
           Returns (v1, mem1) \<Rightarrow>
             m_size v1 = 1 \<and> m_capacity v1 = 4 \<and> m_data v1 = Inline 0 \<and>
             at mem1 v1 0 = Some 13 \<and>
             (case reserve fragile_T 4 v1 8 mem1 of
                Returns (v2, mem2) \<Rightarrow>
                  m_size v2 = 0 \<and> m_capacity v2 = 8 \<and> m_data v2 = Block 0 \<and>
                  at mem2 v2 0 = None \<and> deleted mem2 = []
              | Throws s \<Rightarrow> False
              | Undefined \<Rightarrow> False)
         | Throws s \<Rightarrow> False
         | Undefined \<Rightarrow> False))"
  by (simp add: prim_defs op_defs fixture_defs)

text \<open>
  C3. The claim: the destructor and the success path of \<^verbatim>\<open>reserve\<close> free the old
  region exactly when it is a heap block. Both call \<^verbatim>\<open>clear()\<close> first, which sets
  \<^verbatim>\<open>m_size\<close> to 0, so the size-based mode test that follows always answers "buffer" and
  the delete is never reached. With \<open>N = 2\<close>, the container built from the literal
  \<open>{10, 20, 30}\<close> owns heap block 0; after its destructor, and after \<^verbatim>\<open>reserve(6)\<close>, no
  delete has been logged and block 0 is still allocated.
\<close>

theorem heap_block_never_released:
  "(case initializer_list_ctor plain_T 2 0 [10, 20, 30] empty_memory of
      Returns (v, mem) \<Rightarrow>
        m_data v = Block 0 \<and> m_data v \<noteq> buffer v \<and>
        (case destructor 2 v mem of
           Some mem' \<Rightarrow> deleted mem' = [] \<and> regions mem' (Block 0) = Some [None, None, None]
         | None \<Rightarrow> False) \<and>
        (case reserve plain_T 2 v 6 mem of
           Returns (v', mem') \<Rightarrow>
             m_data v' = Block 1 \<and> deleted mem' = [] \<and>
             regions mem' (Block 0) = Some [None, None, None]
         | Throws s \<Rightarrow> False
         | Undefined \<Rightarrow> False)
    | Throws s \<Rightarrow> False
    | Undefined \<Rightarrow> False)"
  by (simp add: prim_defs op_defs fixture_defs) (simp add: eval_nat_numeral)

text \<open>
  C4, as stated: a container whose data points at the inline buffer has capacity \<open>N\<close>.
  The literal constructor sets the capacity to the length of the literal: with \<open>N = 8\<close>
  and \<open>{10, 20, 30}\<close> the data is the inline buffer and the capacity is 3.
\<close>

theorem literal_capacity_below_N:
  "(case initializer_list_ctor plain_T 8 0 [10, 20, 30] empty_memory of
      Returns (v, mem) \<Rightarrow> m_data v = buffer v \<and> m_capacity v = 3 \<and> m_capacity v \<noteq> 8
    | Throws s \<Rightarrow> False
    | Undefined \<Rightarrow> False)"
  by (simp add: prim_defs op_defs fixture_defs)

text \<open>
  C4, amended. In every state that a container reaches from its default, copy or literal
  constructor through \<^verbatim>\<open>emplace_back\<close>, \<^verbatim>\<open>push_back\<close>, \<^verbatim>\<open>reserve\<close>, \<^verbatim>\<open>resize\<close> and
  \<^verbatim>\<open>clear\<close>: if data points at the inline buffer, the capacity is the one the constructor
  chose, which is \<open>N\<close> after default or copy construction and the length of the literal,
  at most \<open>N\<close>, after construction from a literal.
\<close>

theorem inline_capacity_is_constructor_capacity:
  assumes "reachable T N c (v, mem)" and "m_data v = buffer v"
  shows "m_capacity v = c \<and> c \<le> N"
  using reachable_inline[OF assms(1)] assms(2) by simp

theorem inline_capacity_is_constructor_capacity_witness:
  "reachable plain_T 8 3 (literal_vector, empty_memory) \<and>
   m_data literal_vector = buffer literal_vector \<and>
   m_capacity literal_vector = 3 \<and> (3::nat) \<le> 8"
proof -
  have b: "m_data literal_vector = buffer literal_vector"
    by (simp add: literal_vector_def buffer_def)
  from inline_capacity_is_constructor_capacity [OF literal_vector_reachable b]
  show ?thesis using literal_vector_reachable b by simp
qed

text \<open>
  C5. The claim: two swaps in a row restore both containers, for any mix of modes. With
  \<open>N = 4\<close>, let \<open>a\<close> be empty after \<^verbatim>\<open>reserve(10)\<close> (heap block 0, size 0) and \<open>b\<close> be built
  from a literal of five elements (heap block 1). The first swap takes the branch for
  "first uses buffer", the second the branch for "other uses buffer", which sets
  \<^verbatim>\<open>a.m_data\<close> to the inline buffer of \<open>a\<close>: \<open>a\<close> ends with capacity 10 on its four-slot
  buffer and no longer refers to block 0.
\<close>

theorem swap_twice_loses_heap_block:
  "(case default_ctor 4 0 empty_memory of
      (a0, mem0) \<Rightarrow>
        (case reserve plain_T 4 a0 10 mem0 of
           Returns (a, mem1) \<Rightarrow>
             (case initializer_list_ctor plain_T 4 1 [1, 2, 3, 4, 5] mem1 of
                Returns (b, mem2) \<Rightarrow>
                  (case swap 4 a b mem2 of
                     Some (a', b', mem3) \<Rightarrow>
                       (case swap 4 a' b' mem3 of
                          Some (a'', b'', mem4) \<Rightarrow>
                            m_data a = Block 0 \<and> m_data a'' = Inline 0 \<and> a'' \<noteq> a \<and>
                            m_capacity a'' = 10 \<and> b'' = b
                        | None \<Rightarrow> False)
                   | None \<Rightarrow> False)
              | Throws s \<Rightarrow> False
              | Undefined \<Rightarrow> False)
         | Throws s \<Rightarrow> False
         | Undefined \<Rightarrow> False))"
  by (simp add: prim_defs op_defs fixture_defs)

text \<open>
  C6. The claim: move construction hands the elements of the source to the target, by
  pointer when the source is on the heap. With \<open>N = 4\<close>, the source after \<^verbatim>\<open>reserve(10)\<close>
  and one \<^verbatim>\<open>emplace_back(7)\<close> is on heap block 0 with size 1; the size-based mode test
  sends the move constructor into the buffer branch. The target gets size 1 and capacity
  10 on its own four-slot buffer, whose slot 0 is raw, the element 7 stays in block 0,
  to which no container refers any more, and the source is reset.
\<close>

theorem move_from_heap_source_transfers_nothing:
  "(case default_ctor 4 0 empty_memory of
      (a0, mem0) \<Rightarrow>
        (case reserve plain_T 4 a0 10 mem0 of
           Returns (a1, mem1) \<Rightarrow>
             (case emplace_back plain_T 4 a1 (Some 7) mem1 of
                Returns (a, mem2) \<Rightarrow>
                  m_data a = Block 0 \<and> m_size a = 1 \<and> at mem2 a 0 = Some 7 \<and>
                  (case move_ctor 4 1 a mem2 of
                     Some (v, a', mem3) \<Rightarrow>
                       m_size v = 1 \<and> m_capacity v = 10 \<and> m_data v = Inline 1 \<and>
                       at mem3 v 0 = None \<and>
                       regions mem3 (Inline 1) = Some [None, None, None, None] \<and>
                       read_at mem3 (Block 0) 0 = Some 7 \<and> deleted mem3 = [] \<and>
                       a' = \<lparr>this_addr = 0, m_size = 0, m_capacity = 4, m_data = Inline 0\<rparr>
                   | None \<Rightarrow> False)
              | Throws s \<Rightarrow> False
              | Undefined \<Rightarrow> False)
         | Throws s \<Rightarrow> False
         | Undefined \<Rightarrow> False))"
  by (simp add: prim_defs op_defs fixture_defs) (simp add: eval_nat_numeral)

text \<open>
  C7. Construction from a literal sequence \<open>init\<close> of length \<open>L\<close> whose elements can all
  be copied (and whose \<open>L\<close> elements fit in the address space) returns a container of size
  \<open>L\<close> and capacity \<open>L\<close>, also when \<open>L \<le> N\<close>, holding the elements of \<open>init\<close> in
  order. When \<open>L > N\<close> exactly one heap block is handed out, it has exactly \<open>L\<close> slots and
  it is the active region; when \<open>L \<le> N\<close> the active region is the inline buffer and no
  heap block is handed out or changed.
\<close>

theorem initializer_list_ctor_spec:
  assumes nothrow: "\<forall>x\<in>set init. \<not> copy_throws T x"
    and sz: "0 < sizeof T"
    and fits: "length init * sizeof T < 2 ^ 64"
  shows "\<exists>v mem'. initializer_list_ctor T N a init mem = Returns (v, mem') \<and>
           this_addr v = a \<and> m_size v = length init \<and> m_capacity v = length init \<and>
           elements mem' v = map Some init \<and>
           (if N < length init
            then m_data v = Block (next_block mem) \<and>
                 regions mem' (m_data v) = Some (map Some init) \<and>
                 next_block mem' = Suc (next_block mem) \<and>
                 (\<forall>b. b \<noteq> next_block mem \<longrightarrow> regions mem' (Block b) = regions mem (Block b))
            else m_data v = buffer v \<and>
                 next_block mem' = next_block mem \<and>
                 (\<forall>b. regions mem' (Block b) = regions mem (Block b)))"
proof (cases "N < length init")
  case True
  let ?p = "Block (next_block mem)"
  let ?mem1 = "snd (operator_new T (size_mul (length init) (sizeof T)) (new_object N a mem))"
  have r1: "regions ?mem1 ?p = Some (replicate (length init) None)"
    using sz fits by (simp add: operator_new_def new_object_def size_mul_div)
  have cl: "copy_loop T init ?p 0 ?mem1 =
      Returns (?mem1\<lparr>regions := (regions ?mem1)(?p \<mapsto> take 0 (replicate (length init) None) @ map Some init @
         drop (0 + length init) (replicate (length init) None))\<rparr>)"
    using r1 nothrow by (intro copy_loop_ok) auto
  let ?mem2 = "?mem1\<lparr>regions := (regions ?mem1)(?p \<mapsto> map Some init)\<rparr>"
  let ?v = "\<lparr>this_addr = a, m_size = length init, m_capacity = length init, m_data = ?p\<rparr>"
  have cl': "copy_loop T init ?p 0 ?mem1 = Returns ?mem2"
    using cl by simp
  have run: "initializer_list_ctor T N a init mem = Returns (?v, ?mem2)"
    using True cl' sz fits
    by (simp add: initializer_list_ctor_def uninitialized_copy_def operator_new_def new_object_def
        size_mul_div Let_def)
  have el: "elements ?mem2 ?v = map Some init"
    by (subst elements_take[where r = "map Some init"]) simp_all
  show ?thesis
    using True run el by (simp add: operator_new_def new_object_def)
next
  case False
  let ?p = "Inline a"
  let ?mem1 = "new_object N a mem"
  have r1: "regions ?mem1 ?p = Some (replicate N None)"
    by (simp add: new_object_def)
  have cl: "copy_loop T init ?p 0 ?mem1 =
      Returns (?mem1\<lparr>regions := (regions ?mem1)(?p \<mapsto> take 0 (replicate N None) @ map Some init @
         drop (0 + length init) (replicate N None))\<rparr>)"
    using r1 nothrow False by (intro copy_loop_ok) auto
  let ?mem2 = "?mem1\<lparr>regions := (regions ?mem1)(?p \<mapsto> map Some init @ replicate (N - length init) None)\<rparr>"
  let ?v = "\<lparr>this_addr = a, m_size = length init, m_capacity = length init, m_data = ?p\<rparr>"
  have cl': "copy_loop T init ?p 0 ?mem1 = Returns ?mem2"
    using cl by simp
  have run: "initializer_list_ctor T N a init mem = Returns (?v, ?mem2)"
    using False cl'
    by (simp add: initializer_list_ctor_def uninitialized_copy_def new_object_def Let_def)
  have el: "elements ?mem2 ?v = map Some init"
    by (subst elements_take[where r = "map Some init @ replicate (N - length init) None"]) simp_all
  show ?thesis
    using False run el by (simp add: new_object_def buffer_def)
qed

theorem initializer_list_ctor_spec_witness:
  "0 < sizeof plain_T \<and> length [10, 20, 30::nat] * sizeof plain_T < 2 ^ 64 \<and>
   (\<exists>v mem'. initializer_list_ctor plain_T 2 0 [10, 20, 30] empty_memory = Returns (v, mem') \<and>
      this_addr v = 0 \<and> m_size v = 3 \<and> m_capacity v = 3 \<and>
      elements mem' v = [Some 10, Some 20, Some 30] \<and> m_data v = Block 0 \<and>
      regions mem' (Block 0) = Some [Some 10, Some 20, Some 30] \<and> next_block mem' = 1)"
  using initializer_list_ctor_spec [of "[10, 20, 30]" plain_T 2 0 empty_memory]
  by (auto simp: plain_T_def empty_memory_def)

text \<open>
  C8. The claim: \<^verbatim>\<open>emplace_back\<close> and \<^verbatim>\<open>push_back\<close> append one element at index
  \<^verbatim>\<open>size\<close> and increment the size by one, after growing a full container to capacity
  \<open>max 1 (2 * capacity)\<close>. With \<open>N = 2\<close> and the elements 13 and 1 of a type whose copy
  throws on 13, the container is full and satisfies the invariants of the data model.
  \<^verbatim>\<open>emplace_back(5)\<close> calls \<^verbatim>\<open>reserve(4)\<close>, whose transfer fails at index 0; the handler
  rethrows nothing, \<^verbatim>\<open>reserve\<close> destroys both elements and adopts the new block with
  size 0, and \<^verbatim>\<open>emplace_back\<close> returns normally: the size went from 2 to 1, the only
  element is 5 at index 0, and index 2 is raw. Both \<^verbatim>\<open>push_back\<close> overloads do the same.
\<close>

theorem emplace_back_returns_with_elements_lost:
  "(case default_ctor 2 0 empty_memory of
      (v0, mem0) \<Rightarrow>
        (case emplace_back fragile_T 2 v0 (Some 13) mem0 of
           Returns (v1, mem1) \<Rightarrow>
             (case emplace_back fragile_T 2 v1 (Some 1) mem1 of
                Returns (v, mem) \<Rightarrow>
                  valid fragile_T mem v \<and> next_block mem = 0 \<and>
                  m_size v = 2 \<and> m_capacity v = 2 \<and> m_data v = Inline 0 \<and>
                  elements mem v = [Some 13, Some 1] \<and>
                  (case emplace_back fragile_T 2 v (Some 5) mem of
                     Returns (v', mem') \<Rightarrow>
                       m_size v' = 1 \<and> m_capacity v' = 4 \<and> m_data v' = Block 0 \<and>
                       elements mem' v' = [Some 5] \<and> at mem' v' 2 = None
                   | Throws s \<Rightarrow> False
                   | Undefined \<Rightarrow> False) \<and>
                  push_back fragile_T 2 v 5 mem = emplace_back fragile_T 2 v (Some 5) mem \<and>
                  push_back_move fragile_T 2 v 5 mem = emplace_back fragile_T 2 v (Some 5) mem
              | Throws s \<Rightarrow> False
              | Undefined \<Rightarrow> False)
         | Throws s \<Rightarrow> False
         | Undefined \<Rightarrow> False))"
  by (simp add: prim_defs op_defs fixture_defs push_back_move_def valid_def elements_def)
     (simp add: eval_nat_numeral atLeastLessThanSuc)

text \<open>
  C9. Copy construction from a container \<open>C\<close> that satisfies the invariants of the data
  model, whose element copies do not throw, returns a container \<open>D\<close> of the same size with
  \<open>D[i] = C[i]\<close> live for every \<open>i < size\<close>, leaves the elements of \<open>C\<close> as they were, and
  gives \<open>D\<close> an active region other than that of \<open>C\<close>. Whatever sequence of element
  assignments, \<^verbatim>\<open>emplace_back\<close>, \<^verbatim>\<open>push_back\<close>, \<^verbatim>\<open>reserve\<close>, \<^verbatim>\<open>clear\<close> and \<^verbatim>\<open>resize\<close>
  calls is then made on \<open>D\<close>, the elements of \<open>C\<close> stay the same and \<open>D\<close> never comes to
  share the region of \<open>C\<close>; and the same with the roles of \<open>C\<close> and \<open>D\<close> exchanged.
\<close>

theorem copy_is_equal_and_independent:
  assumes v: "valid T mem other" and ok: "heap_ok mem" and pos: "0 < sizeof T"
    and fresh: "m_data other \<noteq> Inline a" and fitN: "N * sizeof T < 2 ^ 64"
    and nothrow: "\<forall>x. Some x \<in> set (elements mem other) \<longrightarrow> \<not> copy_throws T x"
  shows "\<exists>d mem'. copy_ctor T N a other mem = Returns (d, mem') \<and>
      m_size d = m_size other \<and>
      (\<forall>i. i < m_size other \<longrightarrow> at mem' d i = at mem' other i \<and> at mem' d i \<noteq> None) \<and>
      elements mem' other = elements mem other \<and>
      m_data d \<noteq> m_data other \<and>
      (\<forall>d' mem''. mutated T N (d, mem') (d', mem'') \<longrightarrow>
          elements mem'' other = elements mem other \<and> m_data d' \<noteq> m_data other) \<and>
      (\<forall>o' mem''. mutated T N (other, mem') (o', mem'') \<longrightarrow>
          elements mem'' d = elements mem' d \<and> m_data o' \<noteq> m_data d)"
proof -
  from copy_ctor_ok[OF v ok pos fresh fitN nothrow]
  obtain d mem' where run: "copy_ctor T N a other mem = Returns (d, mem')"
    and sz: "m_size d = m_size other"
    and el: "elements mem' d = elements mem other"
    and ro: "regions mem' (m_data other) = regions mem (m_data other)"
    and ne: "m_data d \<noteq> m_data other"
    and vd: "valid T mem' d" and vo: "valid T mem' other" and ho: "heap_ok mem'"
    by blast
  have eo: "elements mem' other = elements mem other"
    using ro by (rule elements_same_region)
  have live: "None \<notin> set (elements mem' d)"
    using vd by (simp add: valid_def)
  have ats: "at mem' d i = at mem' other i \<and> at mem' d i \<noteq> None" if "i < m_size other" for i
  proof -
    have "elements mem' d ! i = elements mem' other ! i"
      using el eo by simp
    moreover have "elements mem' d ! i = at mem' d i" "elements mem' other ! i = at mem' other i"
      using that sz by (simp_all add: elements_def)
    moreover have "elements mem' d ! i \<in> set (elements mem' d)"
      using that sz by (intro nth_mem) (simp add: elements_def)
    ultimately show ?thesis using live by metis
  qed
  have ao: "apart (m_data other) d mem'"
    using vo ho ne by (auto simp: apart_def valid_def split: option.splits)
  have ad: "apart (m_data d) other mem'"
    using vd ho ne by (auto simp: apart_def valid_def split: option.splits)
  have m1: "elements mem'' other = elements mem other \<and> m_data d' \<noteq> m_data other"
    if "mutated T N (d, mem') (d', mem'')" for d' mem''
  proof -
    from mutated_apart[OF that, of "m_data other"] ao
    have "apart (m_data other) d' mem''" "regions mem'' (m_data other) = regions mem' (m_data other)"
      by simp_all
    then show ?thesis
      using elements_same_region[of mem'' other mem'] eo by (simp add: apart_def)
  qed
  have m2: "elements mem'' d = elements mem' d \<and> m_data o' \<noteq> m_data d"
    if "mutated T N (other, mem') (o', mem'')" for o' mem''
  proof -
    from mutated_apart[OF that, of "m_data d"] ad
    have "apart (m_data d) o' mem''" "regions mem'' (m_data d) = regions mem' (m_data d)"
      by simp_all
    then show ?thesis
      using elements_same_region[of mem'' d mem'] by (simp add: apart_def)
  qed
  show ?thesis
    using run sz ats eo ne m1 m2 by blast
qed

theorem copy_is_equal_and_independent_witness:
  "valid plain_T full_memory full_vector \<and> heap_ok full_memory \<and> 0 < sizeof plain_T \<and>
   m_data full_vector \<noteq> Inline 1 \<and> 1 * sizeof plain_T < 2 ^ 64 \<and>
   elements full_memory full_vector = [Some 5] \<and> \<not> copy_throws plain_T 5 \<and>
   (\<exists>d mem'. copy_ctor plain_T 1 1 full_vector full_memory = Returns (d, mem') \<and>
      m_size d = 1 \<and> at mem' d 0 = at mem' full_vector 0 \<and> at mem' d 0 \<noteq> None \<and>
      elements mem' full_vector = [Some 5] \<and> m_data d \<noteq> m_data full_vector \<and>
      mutated plain_T 1 (d, mem') (d, mem'))"
proof -
  have p: "0 < sizeof plain_T"
    by (simp add: plain_T_def)
  have f: "m_data full_vector \<noteq> Inline 1"
    by (simp add: full_vector_def)
  have n: "1 * sizeof plain_T < 2 ^ 64"
    by (simp add: plain_T_def)
  have c: "\<forall>x. Some x \<in> set (elements full_memory full_vector) \<longrightarrow> \<not> copy_throws plain_T x"
    by (simp add: plain_T_def)
  have cp: "\<not> copy_throws plain_T 5"
    by (simp add: plain_T_def)
  from copy_is_equal_and_independent [OF full_valid full_heap_ok p f n c]
  obtain d mem' where run: "copy_ctor plain_T 1 1 full_vector full_memory = Returns (d, mem')"
    and sz: "m_size d = m_size full_vector"
    and ats: "\<forall>i. i < m_size full_vector \<longrightarrow>
                 at mem' d i = at mem' full_vector i \<and> at mem' d i \<noteq> None"
    and el: "elements mem' full_vector = elements full_memory full_vector"
    and ne: "m_data d \<noteq> m_data full_vector"
    by blast
  have i0: "0 < m_size full_vector"
    by (simp add: full_vector_def)
  from ats i0 have a0: "at mem' d 0 = at mem' full_vector 0" "at mem' d 0 \<noteq> None"
    by blast+
  have sz1: "m_size d = 1"
    using sz by (simp add: full_vector_def)
  have el1: "elements mem' full_vector = [Some 5]"
    using el full_elements by simp
  have m: "mutated plain_T 1 (d, mem') (d, mem')"
    by (rule mutated.not_yet)
  show ?thesis
    using full_valid full_heap_ok p f n full_elements cp run sz1 a0 el1 ne m by blast
qed

text \<open>
  C10. The claim: when the element construction of \<^verbatim>\<open>emplace_back\<close> throws after the
  growth has completed, the size and the stored elements are as before and only the
  capacity may have grown. On the same full container of 13 and 1 with \<open>N = 2\<close>,
  \<^verbatim>\<open>reserve(4)\<close> completes by returning normally, with the failed transfer swallowed and
  the container emptied; the element construction then throws, and the exception leaves
  the container with size 0, capacity 4 and no element.
\<close>

theorem throwing_construction_after_growth_empties_container:
  "(case default_ctor 2 0 empty_memory of
      (v0, mem0) \<Rightarrow>
        (case emplace_back fragile_T 2 v0 (Some 13) mem0 of
           Returns (v1, mem1) \<Rightarrow>
             (case emplace_back fragile_T 2 v1 (Some 1) mem1 of
                Returns (v, mem) \<Rightarrow>
                  valid fragile_T mem v \<and> next_block mem = 0 \<and>
                  m_size v = 2 \<and> m_capacity v = 2 \<and> m_data v = Inline 0 \<and>
                  elements mem v = [Some 13, Some 1] \<and>
                  (case reserve fragile_T 2 v 4 mem of
                     Returns (v2, mem2) \<Rightarrow> m_size v2 = 0 \<and> m_capacity v2 = 4
                   | Throws s \<Rightarrow> False
                   | Undefined \<Rightarrow> False) \<and>
                  (case emplace_back fragile_T 2 v None mem of
                     Throws (v', mem') \<Rightarrow>
                       m_size v' = 0 \<and> m_capacity v' = 4 \<and> m_data v' = Block 0 \<and>
                       elements mem' v' = [] \<and> at mem' v' 0 = None \<and> at mem' v' 1 = None
                   | Returns s \<Rightarrow> False
                   | Undefined \<Rightarrow> False)
              | Throws s \<Rightarrow> False
              | Undefined \<Rightarrow> False)
         | Throws s \<Rightarrow> False
         | Undefined \<Rightarrow> False))"
  by (simp add: prim_defs op_defs fixture_defs valid_def elements_def)
     (simp add: eval_nat_numeral atLeastLessThanSuc)

end
